theory Spec2Isabelle
  imports Complex_Main "HOL-Library.Log_Nat"
begin

section \<open>Strings, paths and percent-decoding\<close>

text \<open>
  Python strings are modelled as \<open>string\<close> (a list of bytes, the UTF-8 encoding of the
  Python text) and byte strings as \<open>string\<close> too. Every separator the program looks for
  (\<open>/\<close>, \<open>.\<close>, \<open>%\<close>) is ASCII, so splitting, stripping and searching act on the
  encoded text as they act on the code points. The program is a macOS application, so
  \<open>os.path\<close> is \<open>posixpath\<close> and \<open>Path\<close> is \<open>PurePosixPath\<close>.
\<close>

type_synonym bytes = string

definition lstrip :: "string \<Rightarrow> string \<Rightarrow> string" where
  \<comment> \<open>\<open>s.lstrip(chars)\<close>: drop leading characters that occur in \<open>chars\<close>.\<close>
  "lstrip s chars = dropWhile (\<lambda>c. c \<in> set chars) s"

definition rstrip :: "string \<Rightarrow> string \<Rightarrow> string" where
  "rstrip s chars = rev (dropWhile (\<lambda>c. c \<in> set chars) (rev s))"

definition rfind :: "string \<Rightarrow> char \<Rightarrow> nat option" where
  \<comment> \<open>\<open>s.rfind(c)\<close>: the index of the last occurrence; \<open>None\<close> stands for Python's -1.\<close>
  "rfind s c =
     (if c \<in> set s then Some (length s - 1 - length (takeWhile (\<lambda>x. x \<noteq> c) (rev s)))
      else None)"

fun split_sep :: "char \<Rightarrow> string \<Rightarrow> string list" where
  \<comment> \<open>\<open>s.split(sep)\<close> for a one-character separator.\<close>
  "split_sep sep [] = [[]]"
| "split_sep sep (c # cs) =
     (if c = sep then [] # split_sep sep cs
      else (case split_sep sep cs of
              [] \<Rightarrow> [[c]]
            | w # ws \<Rightarrow> (c # w) # ws))"

fun join_sep :: "string \<Rightarrow> string list \<Rightarrow> string" where
  \<comment> \<open>\<open>sep.join(parts)\<close>.\<close>
  "join_sep sep [] = []"
| "join_sep sep [w] = w"
| "join_sep sep (w # ws) = w @ sep @ join_sep sep ws"

definition startswith :: "string \<Rightarrow> string \<Rightarrow> bool" where
  "startswith s p = (take (length p) s = p)"

subsection \<open>posixpath\<close>

definition basename :: "string \<Rightarrow> string" where
  \<comment> \<open>\<open>i = p.rfind('/') + 1; return p[i:]\<close>\<close>
  "basename p = rev (takeWhile (\<lambda>c. c \<noteq> CHR ''/'') (rev p))"

definition dirname :: "string \<Rightarrow> string" where
  \<comment> \<open>\<open>head = p[:i]; if head and head != '/' * len(head): head = head.rstrip('/')\<close>\<close>
  "dirname p =
     (let head = rev (dropWhile (\<lambda>c. c \<noteq> CHR ''/'') (rev p))
      in if head \<noteq> [] \<and> head \<noteq> replicate (length head) CHR ''/''
         then rstrip head ''/'' else head)"

definition path_join :: "string \<Rightarrow> string \<Rightarrow> string" where
  \<comment> \<open>\<open>os.path.join(a, b)\<close> with two arguments.\<close>
  "path_join a b =
     (if startswith b ''/'' then b
      else if a = [] \<or> last a = CHR ''/'' then a @ b
      else a @ ''/'' @ b)"

fun normpath_comps :: "bool \<Rightarrow> string list \<Rightarrow> string list \<Rightarrow> string list" where
  \<comment> \<open>The loop of \<open>normpath\<close> over the components; \<open>new_comps\<close> is kept reversed.\<close>
  "normpath_comps rooted new_comps [] = rev new_comps"
| "normpath_comps rooted new_comps (cpt # comps) =
     (if cpt = [] \<or> cpt = ''.'' then normpath_comps rooted new_comps comps
      else if cpt \<noteq> ''..'' \<or> (\<not> rooted \<and> new_comps = [])
              \<or> (new_comps \<noteq> [] \<and> hd new_comps = ''..'')
        then normpath_comps rooted (cpt # new_comps) comps
      else if new_comps \<noteq> [] then normpath_comps rooted (tl new_comps) comps
      else normpath_comps rooted new_comps comps)"

definition normpath :: "string \<Rightarrow> string" where
  "normpath path =
     (if path = [] then ''.''
      else
        let initial_slashes =
              (if startswith path ''/'' then
                 (if startswith path ''//'' \<and> \<not> startswith path ''///'' then 2 else 1)
               else (0::nat));
            comps = normpath_comps (initial_slashes \<noteq> 0) [] (split_sep CHR ''/'' path);
            p = replicate initial_slashes CHR ''/'' @ join_sep ''/'' comps
        in if p = [] then ''.'' else p)"

subsection \<open>pathlib\<close>

definition path_root :: "string \<Rightarrow> string" where
  \<comment> \<open>The root of a \<open>PurePosixPath\<close>: \<open>/\<close>, or \<open>//\<close> for exactly two leading slashes.\<close>
  "path_root p =
     (if startswith p ''/'' then
        (if startswith p ''//'' \<and> \<not> startswith p ''///'' then ''//'' else ''/'')
      else [])"

definition path_parts :: "string \<Rightarrow> string list" where
  \<comment> \<open>The components of a path below its root: empty components and \<open>.\<close> are dropped.\<close>
  "path_parts p = filter (\<lambda>x. x \<noteq> [] \<and> x \<noteq> ''.'') (split_sep CHR ''/'' p)"

definition path_str :: "string \<Rightarrow> string list \<Rightarrow> string" where
  \<comment> \<open>\<open>str(path)\<close>\<close>
  "path_str rt parts = (if rt = [] \<and> parts = [] then ''.'' else rt @ join_sep ''/'' parts)"

definition path_name :: "string \<Rightarrow> string" where
  \<comment> \<open>\<open>Path(p).name\<close>: the last component, or the empty string when there is none.\<close>
  "path_name p = (if path_parts p = [] then [] else last (path_parts p))"

definition name_suffix :: "string \<Rightarrow> string" where
  \<comment> \<open>\<open>i = name.rfind('.'); name[i:] if 0 < i < len(name) - 1 else ''\<close>\<close>
  "name_suffix name =
     (case rfind name CHR ''.'' of
        None \<Rightarrow> []
      | Some i \<Rightarrow> if 0 < i \<and> i + 1 < length name then drop i name else [])"

definition path_suffix :: "string \<Rightarrow> string" where
  "path_suffix p = name_suffix (path_name p)"

definition path_stem :: "string \<Rightarrow> string" where
  \<comment> \<open>\<open>Path(p).stem\<close>: the name without its suffix.\<close>
  "path_stem p =
     (let name = path_name p
      in case rfind name CHR ''.'' of
           None \<Rightarrow> name
         | Some i \<Rightarrow> if 0 < i \<and> i + 1 < length name then take i name else name)"

definition with_suffix :: "string \<Rightarrow> string \<Rightarrow> string option" where
  \<comment> \<open>\<open>str(Path(p).with_suffix(suffix))\<close>; \<open>None\<close> when the path has an empty name and
      \<open>with_suffix\<close> raises ValueError.\<close>
  "with_suffix p suffix =
     (let parts = path_parts p
      in if parts = [] then None
         else
           let name = last parts;
               old_suffix = name_suffix name;
               name' = (if old_suffix = [] then name @ suffix
                        else take (length name - length old_suffix) name @ suffix)
           in Some (path_str (path_root p) (butlast parts @ [name'])))"

definition lower_char :: "char \<Rightarrow> char" where
  "lower_char c =
     (let n = (of_char c :: nat) in if 65 \<le> n \<and> n \<le> 90 then char_of (n + 32) else c)"

definition lower :: "string \<Rightarrow> string" where
  \<comment> \<open>\<open>str.lower()\<close> on the ASCII letters, which is all a file extension comparison
      with an ASCII constant can see.\<close>
  "lower s = map lower_char s"

subsection \<open>urllib.parse.unquote\<close>

definition hexval :: "char \<Rightarrow> nat option" where
  "hexval c =
     (let n = (of_char c :: nat)
      in if 48 \<le> n \<and> n \<le> 57 then Some (n - 48)
         else if 65 \<le> n \<and> n \<le> 70 then Some (n - 55)
         else if 97 \<le> n \<and> n \<le> 102 then Some (n - 87)
         else None)"

fun unquote :: "string \<Rightarrow> string" where
  \<comment> \<open>Percent-decoding: \<open>%XY\<close> with two hexadecimal digits becomes the byte \<open>XY\<close>, any
      other \<open>%\<close> stays. Python then decodes the bytes as UTF-8 and replaces the sequences
      that are not UTF-8 by U+FFFD; the model keeps the bytes, so it is Python's result
      (as UTF-8) whenever the decoded bytes are UTF-8, as on every input used below.\<close>
  "unquote [] = []"
| "unquote (c # cs) =
     (if c = CHR ''%'' then
        (case cs of
           h1 # h2 # rest \<Rightarrow>
             (case (hexval h1, hexval h2) of
                (Some a, Some b) \<Rightarrow> char_of (16 * a + b) # unquote rest
              | _ \<Rightarrow> c # unquote cs)
         | _ \<Rightarrow> c # unquote cs)
      else c # unquote cs)"

subsection \<open>base64 and data URIs\<close>

definition b64_alphabet :: string where
  "b64_alphabet = ''ABCDEFGHIJKLMNOPQRSTUVWXYZabcdefghijklmnopqrstuvwxyz0123456789+/''"

definition b64_char :: "nat \<Rightarrow> char" where
  "b64_char n = b64_alphabet ! (n mod 64)"

fun b64encode :: "bytes \<Rightarrow> string" where
  \<comment> \<open>\<open>base64.b64encode(data).decode('utf-8')\<close>: three bytes give four characters, the
      last group is padded with \<open>=\<close>.\<close>
  "b64encode [] = []"
| "b64encode [a] =
     (let x = (of_char a :: nat)
      in [b64_char (x div 4), b64_char ((x mod 4) * 16), CHR ''='', CHR ''=''])"
| "b64encode [a, b] =
     (let x = (of_char a :: nat); y = (of_char b :: nat)
      in [b64_char (x div 4), b64_char ((x mod 4) * 16 + y div 16),
          b64_char ((y mod 16) * 4), CHR ''=''])"
| "b64encode (a # b # c # rest) =
     (let x = (of_char a :: nat); y = (of_char b :: nat); z = (of_char c :: nat)
      in [b64_char (x div 4), b64_char ((x mod 4) * 16 + y div 16),
          b64_char ((y mod 16) * 4 + z div 64), b64_char (z mod 64)] @ b64encode rest)"

definition data_uri :: "string \<Rightarrow> bytes \<Rightarrow> string" where
  \<comment> \<open>\<open>f"data:{mime_type};base64,{b64_data}"\<close>\<close>
  "data_uri mime_type img_data = ''data:'' @ mime_type @ '';base64,'' @ b64encode img_data"

section \<open>Python numbers and exceptions\<close>

text \<open>
  A Python \<open>float\<close> is an IEEE 754 binary64 number. The model keeps the rational value
  of a float and rounds the exact result of every operation to the nearest number with a
  53-bit significand, ties to even (\<open>fl\<close>). The exponent is not bounded: the program
  divides and multiplies image dimensions and chapter counts only, far from the overflow
  and underflow thresholds of binary64.
\<close>

datatype exn = ZeroDivisionError | Raised string

fun str_exn :: "exn \<Rightarrow> string" where
  \<comment> \<open>\<open>str(e)\<close>\<close>
  "str_exn ZeroDivisionError = ''division by zero''"
| "str_exn (Raised msg) = msg"

definition expo :: "rat \<Rightarrow> int" where
  \<comment> \<open>The binary exponent of \<open>x \<noteq> 0\<close>: \<open>2 powi expo x \<le> \<bar>x\<bar> < 2 powi (expo x + 1)\<close>.\<close>
  "expo x =
     (let (p, q) = quotient_of \<bar>x\<bar>; d = bitlen p - bitlen q
      in if 2 powi d \<le> \<bar>x\<bar> then d else d - 1)"

definition round_half_even :: "rat \<Rightarrow> int" where
  "round_half_even m =
     (let f = \<lfloor>m\<rfloor>; r = m - of_int f
      in if r < 1 / 2 then f else if 1 / 2 < r then f + 1
         else if even f then f else f + 1)"

definition fl :: "rat \<Rightarrow> rat" where
  \<comment> \<open>Round to nearest binary64, ties to even.\<close>
  "fl x =
     (if x = 0 then 0
      else let e = expo x - 52 in of_int (round_half_even (x / 2 powi e)) * 2 powi e)"

definition py_truediv :: "int \<Rightarrow> int \<Rightarrow> exn + rat" where
  \<comment> \<open>\<open>a / b\<close> on two \<open>int\<close>s: the correctly rounded quotient, or ZeroDivisionError.\<close>
  "py_truediv a b = (if b = 0 then Inl ZeroDivisionError else Inr (fl (of_int a / of_int b)))"

definition float_of_int :: "int \<Rightarrow> rat" where
  \<comment> \<open>The conversion of an \<open>int\<close> operand in a mixed \<open>int\<close>/\<open>float\<close> operation.\<close>
  "float_of_int n = fl (of_int n)"

definition fmul :: "rat \<Rightarrow> rat \<Rightarrow> rat" where
  "fmul x y = fl (x * y)"

definition fadd :: "rat \<Rightarrow> rat \<Rightarrow> rat" where
  "fadd x y = fl (x + y)"

definition py_int :: "rat \<Rightarrow> int" where
  \<comment> \<open>\<open>int(x)\<close> of a float: truncation towards zero.\<close>
  "py_int x = (if 0 \<le> x then \<lfloor>x\<rfloor> else \<lceil>x\<rceil>)"

fun str_nat :: "nat \<Rightarrow> string" where
  \<comment> \<open>\<open>str(n)\<close> of a non-negative \<open>int\<close>, as an f-string prints it.\<close>
  "str_nat n =
     (if n < 10 then [char_of (48 + n)]
      else str_nat (n div 10) @ [char_of (48 + n mod 10)])"

declare str_nat.simps [simp del]

section \<open>Pillow: the imaging collaborator\<close>

text \<open>
  Pillow is an external library. An image object is its size, its mode and its pixel
  content, which stays abstract (\<open>'px\<close>). What Pillow does to the pixels is a parameter
  of the model, a record of functions that may raise (\<open>Inl\<close> with the message); what it
  documents about the size and mode of a result is written into the model: \<open>resize\<close>
  returns an image of the requested size and the same mode, pasting onto a new RGB
  background of \<open>img.size\<close> gives an RGB image of that size.
\<close>

record 'px image =
  width :: nat
  height :: nat
  mode :: string
  pixels :: 'px

record 'px pillow =
  image_open :: "bytes \<Rightarrow> string + 'px image"
  resample :: "'px image \<Rightarrow> nat \<times> nat \<Rightarrow> string + 'px"
  flatten :: "'px image \<Rightarrow> string + 'px"
  save_jpeg :: "'px image \<Rightarrow> string + bytes"

definition image_resize :: "'px pillow \<Rightarrow> 'px image \<Rightarrow> nat \<times> nat \<Rightarrow> exn + 'px image" where
  \<comment> \<open>\<open>img.resize(new_size, Image.LANCZOS)\<close>\<close>
  "image_resize P img new_size =
     (case resample P img new_size of
        Inl msg \<Rightarrow> Inl (Raised msg)
      | Inr px \<Rightarrow> Inr (img\<lparr>width := fst new_size, height := snd new_size, pixels := px\<rparr>))"

definition paste_on_white :: "'px pillow \<Rightarrow> 'px image \<Rightarrow> exn + 'px image" where
  \<comment> \<open>\<open>background = Image.new('RGB', img.size, (255, 255, 255))\<close>, the conversion of a
      palette image to RGBA, \<open>background.paste(img, mask=...)\<close> and \<open>img = background\<close>.\<close>
  "paste_on_white P img =
     (case flatten P img of
        Inl msg \<Rightarrow> Inl (Raised msg)
      | Inr px \<Rightarrow> Inr \<lparr>width = width img, height = height img, mode = ''RGB'', pixels = px\<rparr>)"

definition scaled_size :: "'px image \<Rightarrow> exn + nat \<times> nat" where
  \<comment> \<open>\<open>ratio = 1200 / img.width; new_size = (1200, int(img.height * ratio))\<close>\<close>
  "scaled_size img =
     (case py_truediv 1200 (int (width img)) of
        Inl e \<Rightarrow> Inl e
      | Inr ratio \<Rightarrow>
          Inr (1200, nat (py_int (fmul (float_of_int (int (height img))) ratio))))"

definition clamp_width :: "'px pillow \<Rightarrow> 'px image \<Rightarrow> exn + 'px image" where
  \<comment> \<open>\<open>if img.width > 1200: ... img = img.resize(new_size, Image.LANCZOS)\<close>\<close>
  "clamp_width P img =
     (if 1200 < width img then
        (case scaled_size img of
           Inl e \<Rightarrow> Inl e
         | Inr new_size \<Rightarrow> image_resize P img new_size)
      else Inr img)"

definition optimize_image :: "'px pillow \<Rightarrow> bytes \<Rightarrow> exn + 'px image \<times> bytes" where
  \<comment> \<open>The body of the \<open>try\<close> in \<open>_extract_images\<close>: the image that is saved, and the JPEG
      bytes it is saved as.\<close>
  "optimize_image P img_data =
     (case image_open P img_data of
        Inl msg \<Rightarrow> Inl (Raised msg)
      | Inr img \<Rightarrow>
          (case clamp_width P img of
             Inl e \<Rightarrow> Inl e
           | Inr img1 \<Rightarrow>
               (case (if mode img1 = ''RGBA'' \<or> mode img1 = ''P''
                      then paste_on_white P img1 else Inr img1) of
                  Inl e \<Rightarrow> Inl e
                | Inr img2 \<Rightarrow>
                    (case save_jpeg P img2 of
                       Inl msg \<Rightarrow> Inl (Raised msg)
                     | Inr jpeg \<Rightarrow> Inr (img2, jpeg)))))"

section \<open>The book model of the reader collaborator\<close>

datatype item_type =
  ITEM_UNKNOWN | ITEM_IMAGE | ITEM_STYLE | ITEM_SCRIPT | ITEM_NAVIGATION | ITEM_VECTOR
| ITEM_FONT | ITEM_VIDEO | ITEM_AUDIO | ITEM_DOCUMENT | ITEM_COVER | ITEM_SMIL

record item =
  get_id :: string
  get_name :: string
  get_content :: bytes
  get_type :: item_type

text \<open>
  A metadata entry is a pair of a value and its attributes; the value of an empty element
  is Python's \<open>None\<close>. A spine entry is a pair of an item id and the \<open>linear\<close> flag.
\<close>

record book =
  book_items :: "item list"
  dc_title :: "(string option \<times> (string \<times> string) list) list"
  dc_creator :: "(string option \<times> (string \<times> string) list) list"
  spine :: "(string \<times> string) list"

definition get_item_with_id :: "book \<Rightarrow> string \<Rightarrow> item option" where
  \<comment> \<open>The first item with this id, or \<open>None\<close>.\<close>
  "get_item_with_id b uid = find (\<lambda>i. get_id i = uid) (book_items b)"

section \<open>Resource Index: \<open>_extract_images\<close>\<close>

definition mime_types :: "string \<Rightarrow> string option" where
  "mime_types = [''.jpg'' \<mapsto> ''image/jpeg'', ''.jpeg'' \<mapsto> ''image/jpeg'',
     ''.png'' \<mapsto> ''image/png'', ''.gif'' \<mapsto> ''image/gif'',
     ''.svg'' \<mapsto> ''image/svg+xml'', ''.webp'' \<mapsto> ''image/webp'']"

definition rasterizable :: "string \<Rightarrow> bool" where
  \<comment> \<open>\<open>img_ext in ['.jpg', '.jpeg', '.png', '.webp']\<close>\<close>
  "rasterizable img_ext \<longleftrightarrow> img_ext \<in> set [''.jpg'', ''.jpeg'', ''.png'', ''.webp'']"

definition embeddable :: "'px pillow \<Rightarrow> string \<Rightarrow> bytes \<Rightarrow> string \<times> bytes" where
  \<comment> \<open>The MIME type and the bytes that are embedded for one image: the optimized JPEG,
      or the original bytes when the extension is not rasterizable or the optimization
      raised (\<open>except Exception: pass\<close>).\<close>
  "embeddable P img_name img_data =
     (let img_ext = lower (path_suffix img_name);
          mime_type = (case mime_types img_ext of Some m \<Rightarrow> m | None \<Rightarrow> ''image/png'')
      in if rasterizable img_ext then
           (case optimize_image P img_data of
              Inr (img, jpeg) \<Rightarrow> (''image/jpeg'', jpeg)
            | Inl e \<Rightarrow> (mime_type, img_data))
         else (mime_type, img_data))"

definition embed_uri :: "'px pillow \<Rightarrow> string \<Rightarrow> bytes \<Rightarrow> string" where
  \<comment> \<open>\<open>data_uri\<close>: the embeddable value of one image.\<close>
  "embed_uri P img_name img_data =
     (case embeddable P img_name img_data of (mime_type, payload) \<Rightarrow> data_uri mime_type payload)"

definition image_keys :: "string \<Rightarrow> string list" where
  \<comment> \<open>The keys one image is stored under, in the order of the four assignments.\<close>
  "image_keys img_name =
     [img_name, basename img_name, unquote img_name, unquote (basename img_name)]"

definition store_image :: "(string \<rightharpoonup> string) \<Rightarrow> string \<Rightarrow> string \<Rightarrow> (string \<rightharpoonup> string)" where
  "store_image images img_name uri =
     images(img_name \<mapsto> uri, basename img_name \<mapsto> uri, unquote img_name \<mapsto> uri,
            unquote (basename img_name) \<mapsto> uri)"

fun extract_loop ::
  "'px pillow \<Rightarrow> (string \<rightharpoonup> string) \<Rightarrow> item list \<Rightarrow> (string \<rightharpoonup> string)" where
  \<comment> \<open>\<open>for item in book.get_items(): if item.get_type() == ebooklib.ITEM_IMAGE: ...\<close>\<close>
  "extract_loop P images [] = images"
| "extract_loop P images (it # rest) =
     (if get_type it = ITEM_IMAGE then
        extract_loop P
          (store_image images (get_name it) (embed_uri P (get_name it) (get_content it))) rest
      else extract_loop P images rest)"

definition extract_images :: "'px pillow \<Rightarrow> book \<Rightarrow> (string \<rightharpoonup> string)" where
  "extract_images P b = extract_loop P Map.empty (book_items b)"

section \<open>Markup Resolver: \<open>_process_html_content\<close>\<close>

text \<open>
  The parse tree of BeautifulSoup: a tag has a name, its attributes in document order
  and its children; everything else (text, comments, the doctype) is a string node. The
  parser and the serializer are collaborators and stay parameters of the model
  (\<open>bs_parse\<close>, \<open>bs_str\<close> below); the resolver itself works on the tree.
\<close>

datatype node = Tag string "(string \<times> string) list" "node list" | NavigableString string

fun is_tag :: "string \<Rightarrow> node \<Rightarrow> bool" where
  "is_tag name (Tag n attrs cs) = (n = name)"
| "is_tag name (NavigableString s) = False"

fun contents :: "node \<Rightarrow> node list" where
  "contents (Tag n attrs cs) = cs"
| "contents (NavigableString s) = []"

fun descendants_named :: "string \<Rightarrow> node \<Rightarrow> node list" where
  \<comment> \<open>The node itself and its descendants that are tags of this name, in document order.\<close>
  "descendants_named name (Tag n attrs cs) =
     (if n = name then [Tag n attrs cs] else []) @ concat (map (descendants_named name) cs)"
| "descendants_named name (NavigableString s) = []"

definition find_all :: "string \<Rightarrow> node list \<Rightarrow> node list" where
  \<comment> \<open>\<open>soup.find_all(name)\<close>, \<open>soup\<close> being the list of the top-level nodes.\<close>
  "find_all name soup = concat (map (descendants_named name) soup)"

fun dict_set :: "'k \<Rightarrow> 'v \<Rightarrow> ('k \<times> 'v) list \<Rightarrow> ('k \<times> 'v) list" where
  \<comment> \<open>\<open>d[k] = v\<close> on a dictionary kept as the list of its entries in insertion order.\<close>
  "dict_set k v [] = [(k, v)]"
| "dict_set k v ((k', v') # rest) =
     (if k' = k then (k, v) # rest else (k', v') # dict_set k v rest)"

definition dict_del :: "'k \<Rightarrow> ('k \<times> 'v) list \<Rightarrow> ('k \<times> 'v) list" where
  \<comment> \<open>\<open>del d[k]\<close>\<close>
  "dict_del k d = filter (\<lambda>kv. fst kv \<noteq> k) d"

definition src_variants :: "string \<Rightarrow> string \<Rightarrow> string list" where
  "src_variants src base_path =
     [src, unquote src, basename src, basename (unquote src)]
     @ (if base_path \<noteq> [] then
          [normpath (path_join (dirname base_path) src),
           normpath (path_join (dirname base_path) (unquote src))]
        else [])"

fun first_match :: "(string \<rightharpoonup> string) \<Rightarrow> string list \<Rightarrow> string option" where
  \<comment> \<open>\<open>for variant in src_variants: variant = variant.lstrip('./');
      if variant in images: img['src'] = images[variant]; break\<close>\<close>
  "first_match images [] = None"
| "first_match images (variant # rest) =
     (case images (lstrip variant ''./'') of
        Some uri \<Rightarrow> Some uri
      | None \<Rightarrow> first_match images rest)"

definition resolve_src :: "(string \<rightharpoonup> string) \<Rightarrow> string \<Rightarrow> string \<Rightarrow> string" where
  \<comment> \<open>The \<open>src\<close> attribute of an image after the loop over the variants.\<close>
  "resolve_src images base_path src =
     (case first_match images (src_variants src base_path) of
        Some uri \<Rightarrow> uri
      | None \<Rightarrow> src)"

definition resolve_img ::
  "(string \<rightharpoonup> string) \<Rightarrow> string \<Rightarrow> (string \<times> string) list \<Rightarrow> (string \<times> string) list" where
  \<comment> \<open>The body of the loop over the images, on the attributes of one \<open>img\<close> tag.\<close>
  "resolve_img images base_path attrs =
     (let src = (case map_of attrs ''src'' of Some v \<Rightarrow> v | None \<Rightarrow> [])
      in if src = [] then attrs
         else (case first_match images (src_variants src base_path) of
                 Some uri \<Rightarrow> dict_set ''src'' uri attrs
               | None \<Rightarrow> attrs))"

fun process_imgs :: "(string \<rightharpoonup> string) \<Rightarrow> string \<Rightarrow> node \<Rightarrow> node" where
  \<comment> \<open>\<open>for img in soup.find_all('img'): ...\<close>: every \<open>img\<close> tag of the tree, once.\<close>
  "process_imgs images base_path (Tag n attrs cs) =
     Tag n (if n = ''img'' then resolve_img images base_path attrs else attrs)
       (map (process_imgs images base_path) cs)"
| "process_imgs images base_path (NavigableString s) = NavigableString s"

fun decompose_all :: "string \<Rightarrow> node \<Rightarrow> node" where
  \<comment> \<open>\<open>for t in soup.find_all(name): t.decompose()\<close> below one node: every tag of this
      name leaves the tree, with all it contains.\<close>
  "decompose_all name (Tag n attrs cs) =
     Tag n attrs (map (decompose_all name) (filter (\<lambda>c. \<not> is_tag name c) cs))"
| "decompose_all name (NavigableString s) = NavigableString s"

definition process_soup :: "(string \<rightharpoonup> string) \<Rightarrow> string \<Rightarrow> node list \<Rightarrow> node list" where
  \<comment> \<open>The two loops of \<open>_process_html_content\<close> on the parsed document.\<close>
  "process_soup images base_path soup =
     map (decompose_all ''script'')
       (filter (\<lambda>c. \<not> is_tag ''script'' c) (map (process_imgs images base_path) soup))"

section \<open>The collaborators of the pipeline\<close>

text \<open>
  The book reader (\<open>epub.read_epub\<close>), Pillow, BeautifulSoup and the renderer (WeasyPrint)
  are external. A run of the pipeline is modelled against a record of what they do: each
  call that can raise returns \<open>Inl\<close> (or \<open>Some\<close>) with the message of the exception.
  \<open>base_css\<close> is the text of \<open>_get_base_css\<close>, a constant stylesheet that the pipeline
  hands to the renderer unread.
\<close>

record 'px world =
  pil :: "'px pillow"
  read_epub :: "string \<Rightarrow> string + book"
  decode_utf8 :: "bytes \<Rightarrow> string"
  bs_parse :: "string \<Rightarrow> string + node list"
  bs_str :: "node list \<Rightarrow> string"
  weasy_html :: "string \<Rightarrow> string option"
  weasy_css :: "string \<Rightarrow> string option"
  write_pdf :: "string \<Rightarrow> string \<Rightarrow> string option"
  base_css :: string

definition process_html_content ::
  "'px world \<Rightarrow> string \<Rightarrow> (string \<rightharpoonup> string) \<Rightarrow> string \<Rightarrow> exn + string" where
  \<comment> \<open>\<open>soup = BeautifulSoup(html_content, 'lxml'); ...; return str(soup)\<close>\<close>
  "process_html_content W html_content images base_path =
     (case bs_parse W html_content of
        Inl msg \<Rightarrow> Inl (Raised msg)
      | Inr soup \<Rightarrow> Inr (bs_str W (process_soup images base_path soup)))"

section \<open>Document Assembler and Conversion Pipeline: \<open>convert\<close>\<close>

type_synonym report = "rat \<times> string"

definition report_progress :: "bool \<Rightarrow> rat \<Rightarrow> string \<Rightarrow> report list \<Rightarrow> report list" where
  \<comment> \<open>\<open>_report_progress\<close>: the reports the callback has received so far; nothing is
      reported when no callback was given.\<close>
  "report_progress has_callback progress message sent =
     (if has_callback then sent @ [(progress, message)] else sent)"

definition nl :: string where
  "nl = [CHR 0x0A]"

definition spaces :: "nat \<Rightarrow> string" where
  "spaces n = replicate n CHR '' ''"

definition fmt :: "string option \<Rightarrow> string" where
  \<comment> \<open>\<open>{v}\<close> in an f-string, for a value that is a string or \<open>None\<close>.\<close>
  "fmt v = (case v of None \<Rightarrow> ''None'' | Some s \<Rightarrow> s)"

definition truthy :: "string option \<Rightarrow> bool" where
  "truthy v = (case v of None \<Rightarrow> False | Some s \<Rightarrow> s \<noteq> [])"

definition book_title :: "book \<Rightarrow> string \<Rightarrow> string option" where
  \<comment> \<open>\<open>title[0][0] if title else Path(epub_path).stem\<close>\<close>
  "book_title b epub_path =
     (case dc_title b of [] \<Rightarrow> Some (path_stem epub_path) | (v, _) # _ \<Rightarrow> v)"

definition book_author :: "book \<Rightarrow> string option" where
  \<comment> \<open>\<open>creator[0][0] if creator else ""\<close>\<close>
  "book_author b = (case dc_creator b of [] \<Rightarrow> Some [] | (v, _) # _ \<Rightarrow> v)"

definition author_line :: "string option \<Rightarrow> string" where
  \<comment> \<open>\<open>f'<p class="author">{author}</p>' if author else ''\<close>\<close>
  "author_line author =
     (if truthy author then ''<p class=\"author\">'' @ fmt author @ ''</p>'' else [])"

definition title_page :: "string option \<Rightarrow> string option \<Rightarrow> string" where
  "title_page title author =
     nl @ spaces 12 @ ''<div class=\"title-page\">'' @ nl
     @ spaces 16 @ ''<h1>'' @ fmt title @ ''</h1>'' @ nl
     @ spaces 16 @ author_line author @ nl
     @ spaces 12 @ ''</div>'' @ nl
     @ spaces 12"

definition full_html :: "string option \<Rightarrow> string list \<Rightarrow> string" where
  "full_html title html_parts =
     nl @ spaces 12 @ ''<!DOCTYPE html>'' @ nl
     @ spaces 12 @ ''<html>'' @ nl
     @ spaces 12 @ ''<head>'' @ nl
     @ spaces 16 @ ''<meta charset=\"utf-8\">'' @ nl
     @ spaces 16 @ ''<title>'' @ fmt title @ ''</title>'' @ nl
     @ spaces 12 @ ''</head>'' @ nl
     @ spaces 12 @ ''<body>'' @ nl
     @ spaces 16 @ concat html_parts @ nl
     @ spaces 12 @ ''</body>'' @ nl
     @ spaces 12 @ ''</html>'' @ nl
     @ spaces 12"

definition spine_items :: "book \<Rightarrow> item list" where
  \<comment> \<open>\<open>for item_id, linear in book.spine: item = book.get_item_with_id(item_id);
      if item: spine_items.append(item)\<close>\<close>
  "spine_items b = List.map_filter (\<lambda>(uid, linear). get_item_with_id b uid) (spine b)"

definition chapter_progress :: "nat \<Rightarrow> nat \<Rightarrow> exn + rat" where
  \<comment> \<open>\<open>0.2 + (0.5 * (idx / max(total_items, 1)))\<close>\<close>
  "chapter_progress idx total_items =
     (case py_truediv (int idx) (int (max total_items 1)) of
        Inl e \<Rightarrow> Inl e
      | Inr q \<Rightarrow> Inr (fadd (fl (2 / 10)) (fmul (1 / 2) q)))"

definition chapter_fraction :: "nat \<Rightarrow> nat \<Rightarrow> rat" where
  \<comment> \<open>The fraction reported for the chapter at index \<open>idx\<close>: the value of
      \<open>chapter_progress\<close>, whose divisor \<open>max(total_items, 1)\<close> is never zero.\<close>
  "chapter_fraction idx total_items =
     fadd (fl (2 / 10)) (fmul (1 / 2) (fl (of_nat idx / of_nat (max total_items 1))))"

definition chapter_message :: "nat \<Rightarrow> nat \<Rightarrow> string" where
  \<comment> \<open>\<open>f"Processing chapter {idx + 1} of {total_items}..."\<close>\<close>
  "chapter_message idx total_items =
     ''Processing chapter '' @ str_nat (idx + 1) @ '' of '' @ str_nat total_items @ ''...''"

definition chapter_block :: "'px world \<Rightarrow> (string \<rightharpoonup> string) \<Rightarrow> item \<Rightarrow> exn + string" where
  \<comment> \<open>One document of the spine: decode, resolve, parse again, keep the body.\<close>
  "chapter_block W images it =
     (case process_html_content W (decode_utf8 W (get_content it)) images (get_name it) of
        Inl e \<Rightarrow> Inl e
      | Inr processed \<Rightarrow>
          (case bs_parse W processed of
             Inl msg \<Rightarrow> Inl (Raised msg)
           | Inr soup \<Rightarrow>
               (case find_all ''body'' soup of
                  body # _ \<Rightarrow> Inr (''<div class=\"chapter\">'' @ bs_str W (contents body) @ ''</div>'')
                | [] \<Rightarrow> Inr (''<div class=\"chapter\">'' @ processed @ ''</div>''))))"

fun convert_chapters ::
  "'px world \<Rightarrow> bool \<Rightarrow> (string \<rightharpoonup> string) \<Rightarrow> nat \<Rightarrow> nat \<Rightarrow> item list \<Rightarrow>
     report list \<Rightarrow> string list \<Rightarrow> report list \<times> (exn + string list)" where
  \<comment> \<open>\<open>for idx, item in enumerate(spine_items): ...\<close>, from index \<open>idx\<close> on; the reports
      made so far survive an exception.\<close>
  "convert_chapters W cb images total_items idx [] sent html_parts = (sent, Inr html_parts)"
| "convert_chapters W cb images total_items idx (it # rest) sent html_parts =
     (if get_type it = ITEM_DOCUMENT then
        (case chapter_progress idx total_items of
           Inl e \<Rightarrow> (sent, Inl e)
         | Inr progress \<Rightarrow>
             (let sent' = report_progress cb progress (chapter_message idx total_items) sent
              in case chapter_block W images it of
                   Inl e \<Rightarrow> (sent', Inl e)
                 | Inr block \<Rightarrow>
                     convert_chapters W cb images total_items (idx + 1) rest sent'
                       (html_parts @ [block])))
      else convert_chapters W cb images total_items (idx + 1) rest sent html_parts)"

text \<open>
  What a run of \<open>convert\<close> leaves behind: the reports the progress callback received,
  in order; the value returned (\<open>Inr\<close>) or the exception raised (\<open>Inl\<close>); and the
  destination path with the document rendered to it, when \<open>write_pdf\<close> returned.
\<close>

record run =
  reports :: "report list"
  outcome :: "exn + bool"
  written :: "(string \<times> string) option"

definition render_stage ::
  "'px world \<Rightarrow> bool \<Rightarrow> string option \<Rightarrow> string list \<Rightarrow> string \<Rightarrow> report list \<Rightarrow> run" where
  \<comment> \<open>From \<open>self._report_progress(0.7, "Generating PDF...")\<close> to \<open>return True\<close>.\<close>
  "render_stage W cb title html_parts output_path sent =
     (let sent1 = report_progress cb (fl (7 / 10)) ''Generating PDF...'' sent;
          html = full_html title html_parts
      in case weasy_html W html of
           Some msg \<Rightarrow> \<lparr>reports = sent1, outcome = Inl (Raised msg), written = None\<rparr>
         | None \<Rightarrow>
             (case weasy_css W (base_css W) of
                Some msg \<Rightarrow> \<lparr>reports = sent1, outcome = Inl (Raised msg), written = None\<rparr>
              | None \<Rightarrow>
                  (let sent2 = report_progress cb (fl (85 / 100)) ''Writing PDF file...'' sent1
                   in case write_pdf W html output_path of
                        Some msg \<Rightarrow>
                          \<lparr>reports = sent2, outcome = Inl (Raised msg), written = None\<rparr>
                      | None \<Rightarrow>
                          \<lparr>reports = report_progress cb 1 ''Complete!'' sent2,
                           outcome = Inr True, written = Some (output_path, html)\<rparr>)))"

definition try_convert :: "'px world \<Rightarrow> bool \<Rightarrow> string \<Rightarrow> string \<Rightarrow> run" where
  \<comment> \<open>The body of the \<open>try\<close> in \<open>convert\<close>.\<close>
  "try_convert W cb epub_path output_path =
     (let sent0 = report_progress cb 0 ''Opening EPUB file...'' []
      in case read_epub W epub_path of
           Inl msg \<Rightarrow> \<lparr>reports = sent0, outcome = Inl (Raised msg), written = None\<rparr>
         | Inr b \<Rightarrow>
             (let sent1 = report_progress cb (fl (1 / 10)) ''Extracting images...'' sent0;
                  images = extract_images (pil W) b;
                  sent2 = report_progress cb (fl (2 / 10)) ''Processing chapters...'' sent1;
                  title = book_title b epub_path;
                  author = book_author b;
                  html_parts = [title_page title author];
                  its = spine_items b
              in case convert_chapters W cb images (length its) 0 its sent2 html_parts of
                   (sent3, Inl e) \<Rightarrow> \<lparr>reports = sent3, outcome = Inl e, written = None\<rparr>
                 | (sent3, Inr parts) \<Rightarrow> render_stage W cb title parts output_path sent3))"

definition convert :: "'px world \<Rightarrow> bool \<Rightarrow> string \<Rightarrow> string \<Rightarrow> run" where
  \<comment> \<open>\<open>EPUBConverter(progress_callback).convert(epub_path, output_path)\<close>;
      \<open>except Exception as e: self._report_progress(0.0, f"Error: {str(e)}"); raise\<close>\<close>
  "convert W cb epub_path output_path =
     (let r = try_convert W cb epub_path output_path
      in case outcome r of
           Inr v \<Rightarrow> r
         | Inl e \<Rightarrow> r\<lparr>reports := report_progress cb 0 (''Error: '' @ str_exn e) (reports r)\<rparr>)"

definition convert_epub_to_pdf :: "'px world \<Rightarrow> string \<Rightarrow> string \<Rightarrow> bool \<Rightarrow> run" where
  "convert_epub_to_pdf W epub_path output_path has_callback =
     convert W has_callback epub_path output_path"

section \<open>Job Queue and Worker\<close>

datatype ConversionStatus = PENDING | CONVERTING | COMPLETED | FAILED

record QueueItem =
  qid :: string
  epub_path :: string
  output_path :: string
  status :: ConversionStatus
  progress :: rat
  message :: string
  error :: "string option"

text \<open>
  One call of the observer, \<open>result_callback(item_id, status, progress, message)\<close>.
\<close>

type_synonym update = "string \<times> ConversionStatus \<times> rat \<times> string"

definition update_id :: "update \<Rightarrow> string" where
  "update_id u = fst u"

definition update_status :: "update \<Rightarrow> ConversionStatus" where
  "update_status u = fst (snd u)"

definition update_progress :: "update \<Rightarrow> rat" where
  "update_progress u = fst (snd (snd u))"

definition worker_process :: "'px world \<Rightarrow> QueueItem \<Rightarrow> update list" where
  \<comment> \<open>The body of the worker's loop for one dequeued item: the calls of
      \<open>result_callback\<close>, in order. The progress callback handed to the pipeline forwards
      every report as a \<open>CONVERTING\<close> update.\<close>
  "worker_process W it =
     (let r = convert_epub_to_pdf W (epub_path it) (output_path it) True
      in [(qid it, CONVERTING, 0, ''Starting conversion...'')]
         @ map (\<lambda>(p, m). (qid it, CONVERTING, p, m)) (reports r)
         @ [case outcome r of
              Inr v \<Rightarrow> (qid it, COMPLETED, 1, ''Complete!'')
            | Inl e \<Rightarrow> (qid it, FAILED, 0, ''Error: '' @ str_exn e)])"

fun worker_run :: "'px world \<Rightarrow> QueueItem option list \<Rightarrow> update list" where
  \<comment> \<open>The worker's loop over the entries it dequeues, up to the stop token \<open>None\<close>.\<close>
  "worker_run W [] = []"
| "worker_run W (None # rest) = []"
| "worker_run W (Some it # rest) = worker_process W it @ worker_run W rest"

fun queued :: "QueueItem option list \<Rightarrow> QueueItem list" where
  \<comment> \<open>The items among the entries of a queue.\<close>
  "queued [] = []"
| "queued (None # q) = queued q"
| "queued (Some it # q) = it # queued q"

text \<open>
  The application: the two dictionaries of the window (the items, and the ids that have
  a widget; a widget holds the very item object of \<open>queue_items\<close>), the task queue shared
  with the worker, the worker's \<open>running\<close> flag and whether its thread is still in
  \<open>run\<close>. Three fields record what happened: the observer calls made by the worker, those
  scheduled with \<open>after(0, ...)\<close> that the main loop has not run yet, and the calls of
  \<open>convert_epub_to_pdf\<close>.
\<close>

record app =
  queue_items :: "(string \<times> QueueItem) list"
  item_widgets :: "string list"
  task_queue :: "QueueItem option list"
  output_directory :: "string option"
  running :: bool
  alive :: bool
  callbacks :: "update list"
  scheduled :: "update list"
  converted :: "(string \<times> string) list"

definition init_app :: app where
  "init_app = \<lparr>queue_items = [], item_widgets = [], task_queue = [],
     output_directory = None, running = True, alive = True,
     callbacks = [], scheduled = [], converted = []\<rparr>"

definition output_path_for :: "string option \<Rightarrow> string \<Rightarrow> string option" where
  \<comment> \<open>The output path of \<open>_add_files_to_queue\<close>; \<open>None\<close> when \<open>with_suffix\<close> raises.\<close>
  "output_path_for out_dir path =
     (case out_dir of
        Some d \<Rightarrow>
          (if d \<noteq> [] then Some (path_join d (path_stem path @ ''.pdf''))
           else with_suffix path ''.pdf'')
      | None \<Rightarrow> with_suffix path ''.pdf'')"

fun add_files_to_queue :: "app \<Rightarrow> (string \<times> bool \<times> string) list \<Rightarrow> app" where
  \<comment> \<open>\<open>_add_files_to_queue\<close>; each path comes with what \<open>os.path.exists\<close> answers for it
      and the \<open>uuid4\<close> drawn for it. An exception ends the callback where it is raised.\<close>
  "add_files_to_queue st [] = st"
| "add_files_to_queue st ((path, exists, uuid) # rest) =
     (if \<not> exists then add_files_to_queue st rest
      else
        (case output_path_for (output_directory st) path of
           None \<Rightarrow> st
         | Some out \<Rightarrow>
             (let it = \<lparr>qid = uuid, epub_path = path, output_path = out, status = PENDING,
                        progress = 0, message = ''Waiting...'', error = None\<rparr>
              in add_files_to_queue
                   (st\<lparr>queue_items := dict_set uuid it (queue_items st),
                       item_widgets := (if uuid \<in> set (item_widgets st) then item_widgets st
                                        else item_widgets st @ [uuid]),
                       task_queue := task_queue st @ [Some it]\<rparr>)
                   rest)))"

definition remove_item :: "app \<Rightarrow> string \<Rightarrow> app" where
  \<comment> \<open>\<open>_remove_item\<close>: the widget and the dictionary entry go; the task queue is not
      touched.\<close>
  "remove_item st item_id =
     st\<lparr>item_widgets := (if item_id \<in> set (item_widgets st)
                          then removeAll item_id (item_widgets st) else item_widgets st),
        queue_items := (if item_id \<in> fst ` set (queue_items st)
                         then dict_del item_id (queue_items st) else queue_items st)\<rparr>"

definition update_item :: "app \<Rightarrow> update \<Rightarrow> app" where
  \<comment> \<open>\<open>_update_item\<close>, on the main thread.\<close>
  "update_item st u =
     (case u of (item_id, s, p, m) \<Rightarrow>
        (case map_of (queue_items st) item_id of
           None \<Rightarrow> st
         | Some it \<Rightarrow>
             st\<lparr>queue_items :=
                  dict_set item_id (it\<lparr>status := s, progress := p, message := m\<rparr>)
                    (queue_items st)\<rparr>))"

definition worker_iteration :: "'px world \<Rightarrow> app \<Rightarrow> app" where
  \<comment> \<open>One pass through \<open>while self.running:\<close> in \<open>ConversionWorker.run\<close>. An empty queue
      times out and the loop goes on; the stop token leaves the loop.\<close>
  "worker_iteration W st =
     (if \<not> alive st then st
      else if \<not> running st then st\<lparr>alive := False\<rparr>
      else
        (case task_queue st of
           [] \<Rightarrow> st
         | None # rest \<Rightarrow> st\<lparr>task_queue := rest, alive := False\<rparr>
         | Some it # rest \<Rightarrow>
             (let us = worker_process W it
              in st\<lparr>task_queue := rest,
                    callbacks := callbacks st @ us,
                    scheduled := scheduled st @ us,
                    converted := converted st @ [(epub_path it, output_path it)]\<rparr>)))"

datatype event =
    AddFiles "(string \<times> bool \<times> string) list"
  | RemoveItem string
  | SelectOutputDir string
  | MainLoop
  | WorkerLoop
  | CloseWindow

fun app_step :: "'px world \<Rightarrow> app \<Rightarrow> event \<Rightarrow> app" where
  "app_step W st (AddFiles files) = add_files_to_queue st files"
| "app_step W st (RemoveItem item_id) = remove_item st item_id"
| "app_step W st (SelectOutputDir d) =
     (if d \<noteq> [] then st\<lparr>output_directory := Some d\<rparr> else st)"
| "app_step W st MainLoop =
     (case scheduled st of
        [] \<Rightarrow> st
      | u # rest \<Rightarrow> update_item (st\<lparr>scheduled := rest\<rparr>) u)"
| "app_step W st WorkerLoop = worker_iteration W st"
| "app_step W st CloseWindow = st\<lparr>running := False, task_queue := task_queue st @ [None]\<rparr>"

fun app_run :: "'px world \<Rightarrow> app \<Rightarrow> event list \<Rightarrow> app" where
  "app_run W st [] = st"
| "app_run W st (e # es) = app_run W (app_step W st e) es"

fun event_uuids :: "event \<Rightarrow> string list" where
  \<comment> \<open>The ids drawn by \<open>uuid4\<close> during an event.\<close>
  "event_uuids (AddFiles files) = map (\<lambda>f. snd (snd f)) files"
| "event_uuids _ = []"

definition job_inv :: "'px world \<Rightarrow> app \<Rightarrow> string list \<Rightarrow> bool" where
  \<comment> \<open>The updates so far are those of the items dequeued so far; these items, the items
      still queued and the ids still to be drawn are pairwise distinct.\<close>
  "job_inv W st future \<longleftrightarrow>
     (\<exists>done. callbacks st = concat (map (worker_process W) done)
        \<and> distinct (map qid done @ map qid (queued (task_queue st)) @ future))"

text \<open>
  The lifecycle of a job as the observer sees it: the transitions of the status, and a
  sequence of statuses that follows them from a given status on.
\<close>

fun transition :: "ConversionStatus \<Rightarrow> ConversionStatus \<Rightarrow> bool" where
  "transition PENDING CONVERTING = True"
| "transition CONVERTING CONVERTING = True"
| "transition CONVERTING COMPLETED = True"
| "transition CONVERTING FAILED = True"
| "transition _ _ = False"

fun follows :: "ConversionStatus \<Rightarrow> ConversionStatus list \<Rightarrow> bool" where
  "follows s [] = True"
| "follows s (t # ts) = (transition s t \<and> follows t ts)"

section \<open>Fixtures\<close>

text \<open>
  Concrete collaborators and books, on which the theorems below are instantiated. The
  imaging stub reads every byte string as a 2400 by 1000 RGB image unless it is empty,
  resizes to any size with a positive height and encodes to a fixed byte string.
\<close>

definition demo_pillow :: "unit pillow" where
  "demo_pillow =
     \<lparr>image_open = (\<lambda>d. if d = [] then Inl ''cannot identify image file''
                         else Inr \<lparr>width = 2400, height = 1000, mode = ''RGB'', pixels = ()\<rparr>),
      resample = (\<lambda>img sz. if snd sz < 1 then Inl ''height and width must be > 0'' else Inr ()),
      flatten = (\<lambda>img. Inr ()),
      save_jpeg = (\<lambda>img. Inr ''JFIF'')\<rparr>"

definition image_item :: "string \<Rightarrow> bytes \<Rightarrow> item" where
  "image_item name data =
     \<lparr>get_id = name, get_name = name, get_content = data, get_type = ITEM_IMAGE\<rparr>"

definition two_folders :: book where
  \<comment> \<open>Two images with the same file name in two folders.\<close>
  "two_folders =
     \<lparr>book_items = [image_item ''ch1/fig.gif'' ''A'', image_item ''ch2/fig.gif'' ''B''],
      dc_title = [], dc_creator = [], spine = []\<rparr>"

definition two_images :: book where
  "two_images =
     \<lparr>book_items = [image_item ''img/a%20b.gif'' ''A'', image_item ''img/c.svg'' ''B''],
      dc_title = [], dc_creator = [], spine = []\<rparr>"

definition same_names :: book where
  \<comment> \<open>Three images whose file names decode to the same name, in three folders.\<close>
  "same_names =
     \<lparr>book_items = [image_item ''x/a%20b.gif'' ''A'', image_item ''y/a%20b.gif'' ''B'',
                    image_item ''z/a b.gif'' ''C''],
      dc_title = [], dc_creator = [], spine = []\<rparr>"

definition one_image :: "string \<rightharpoonup> string" where
  "one_image = [''ch1/fig.gif'' \<mapsto> ''data:image/gif;base64,QQ=='']"

text \<open>
  A parser stub that wraps any markup as the text of a body, a serializer stub that writes
  the text nodes, a renderer that accepts every document and a file system on which one
  destination is read-only.
\<close>

fun node_text :: "node \<Rightarrow> string" where
  "node_text (Tag n attrs cs) = concat (map node_text cs)"
| "node_text (NavigableString s) = s"

definition chapter_item :: "string \<Rightarrow> bytes \<Rightarrow> item" where
  "chapter_item name data =
     \<lparr>get_id = name, get_name = name, get_content = data, get_type = ITEM_DOCUMENT\<rparr>"

definition demo_book :: book where
  "demo_book =
     \<lparr>book_items = [image_item ''img/a.gif'' ''A'', chapter_item ''text/c1.xhtml'' ''one'',
                     chapter_item ''text/c2.xhtml'' ''two''],
      dc_title = [], dc_creator = [],
      spine = [(''text/c1.xhtml'', ''yes''), (''text/c2.xhtml'', ''yes'')]\<rparr>"

definition empty_book :: book where
  "empty_book =
     \<lparr>book_items = [], dc_title = [(Some ''Untitled'', [])], dc_creator = [(Some ''Nobody'', [])],
      spine = []\<rparr>"

definition demo_world :: "unit world" where
  "demo_world =
     \<lparr>pil = demo_pillow,
      read_epub = (\<lambda>p. if p = ''/books/demo.epub'' then Inr demo_book
                        else if p = ''/books/empty.epub'' then Inr empty_book
                        else Inl ''File is not a zip file''),
      decode_utf8 = (\<lambda>d. d),
      bs_parse = (\<lambda>markup. Inr [Tag ''html'' [] [Tag ''body'' [] [NavigableString markup]]]),
      bs_str = (\<lambda>nodes. concat (map node_text nodes)),
      weasy_html = (\<lambda>html. None),
      weasy_css = (\<lambda>css. None),
      write_pdf = (\<lambda>html path. if path = ''/readonly/demo.pdf'' then Some ''Permission denied''
                                 else None),
      base_css = ''body { }''\<rparr>"

definition job :: "string \<Rightarrow> string \<Rightarrow> string \<Rightarrow> QueueItem" where
  "job uuid source dest =
     \<lparr>qid = uuid, epub_path = source, output_path = dest, status = PENDING, progress = 0,
      message = ''Waiting...'', error = None\<rparr>"

definition bounded_sorted :: "rat \<Rightarrow> report list \<Rightarrow> bool" where
  \<comment> \<open>The fractions reported so far do not decrease and none is above \<open>u\<close>.\<close>
  "bounded_sorted u sent \<longleftrightarrow> sorted (map fst sent) \<and> (\<forall>x \<in> set sent. 0 \<le> fst x \<and> fst x \<le> u)"

section \<open>Properties of the float model\<close>

lemma quotient_of_abs_pos:
  assumes "x \<noteq> 0" and "quotient_of \<bar>x\<bar> = (p, q)"
  shows "0 < p" and "0 < q" and "\<bar>x\<bar> = of_int p / of_int q"
proof -
  show q: "0 < q" using assms(2) by (rule quotient_of_denom_pos)
  show eq: "\<bar>x\<bar> = of_int p / of_int q" using assms(2) by (rule quotient_of_div)
  have "0 < \<bar>x\<bar>" using assms(1) by simp
  with eq q show "0 < p" by (simp add: zero_less_divide_iff)
qed

lemma two_powi_pos: "0 < (2::rat) powi n"
  by (simp add: power_int_def)

lemma two_powi_mono: "m \<le> n \<Longrightarrow> (2::rat) powi m \<le> 2 powi n"
  by (rule power_int_increasing) simp_all

lemma two_powi_less_imp: "(2::rat) powi a < 2 powi b \<Longrightarrow> a < b"
  using two_powi_mono [of b a] by (cases "a < b") simp_all

lemma two_powi_split52: "(2::rat) powi n = 2 ^ 52 * 2 powi (n - 52)"
  using power_int_add [of "2::rat" 52 "n - 52"] by simp

lemma two_powi_split53: "(2::rat) powi (n + 1) = 2 ^ 53 * 2 powi (n - 52)"
proof -
  have "(2::rat) powi (53 + (n - 52)) = 2 powi 53 * 2 powi (n - 52)"
    by (rule power_int_add) simp
  moreover have "53 + (n - 52) = n + 1" by simp
  ultimately show ?thesis by (simp only: power_int_numeral)
qed

lemma bitlen_powi_bounds:
  assumes "0 < p"
  shows "0 < bitlen p" and "2 powi (bitlen p - 1) \<le> (of_int p :: rat)"
    and "(of_int p :: rat) < 2 powi (bitlen p)"
proof -
  show pos: "0 < bitlen p"
    using assms bitlen_eq_zero_iff [of p] bitlen_nonneg [of p] by linarith
  from bitlen_bounds [OF assms]
  have a: "2 ^ nat (bitlen p - 1) \<le> p" and b: "p < 2 ^ nat (bitlen p)" by simp_all
  have "(of_int (2 ^ nat (bitlen p - 1)) :: rat) \<le> of_int p"
    using a by (simp only: of_int_le_iff)
  then show "2 powi (bitlen p - 1) \<le> (of_int p :: rat)"
    using pos by (simp add: power_int_def)
  have "(of_int p :: rat) < of_int (2 ^ nat (bitlen p))"
    using b by (simp only: of_int_less_iff)
  then show "(of_int p :: rat) < 2 powi (bitlen p)"
    using pos by (simp add: power_int_def)
qed

lemma expo_bounds:
  assumes "x \<noteq> 0"
  shows "2 powi (expo x) \<le> \<bar>x\<bar>" and "\<bar>x\<bar> < 2 powi (expo x + 1)"
proof -
  obtain p q where pq: "quotient_of \<bar>x\<bar> = (p, q)" by (cases "quotient_of \<bar>x\<bar>")
  note f = quotient_of_abs_pos [OF assms pq]
  define bp where "bp = bitlen p"
  define bq where "bq = bitlen q"
  have bp: "2 powi (bp - 1) \<le> (of_int p :: rat)" "(of_int p :: rat) < 2 powi bp"
    using bitlen_powi_bounds [OF f(1)] by (simp_all add: bp_def)
  have bq: "2 powi (bq - 1) \<le> (of_int q :: rat)" "(of_int q :: rat) < 2 powi bq"
    using bitlen_powi_bounds [OF f(2)] by (simp_all add: bq_def)
  have qpos: "0 < (of_int q :: rat)" using f(2) by simp
  have "(2::rat) powi (bp - (bq - 1)) = 2 powi bp / 2 powi (bq - 1)"
    by (rule power_int_diff) simp
  then have s1: "(2::rat) powi (bp - bq + 1) = 2 powi bp / 2 powi (bq - 1)"
    by (simp add: algebra_simps)
  have "(2::rat) powi ((bp - 1) - bq) = 2 powi (bp - 1) / 2 powi bq"
    by (rule power_int_diff) simp
  then have s2: "(2::rat) powi (bp - bq - 1) = 2 powi (bp - 1) / 2 powi bq"
    by (simp add: algebra_simps)
  have "of_int p / of_int q < 2 powi bp / (of_int q :: rat)"
    using bp(2) qpos by (simp add: divide_strict_right_mono)
  also have "\<dots> \<le> 2 powi bp / 2 powi (bq - 1)"
    using bq(1) two_powi_pos [of "bq - 1"] two_powi_pos [of bp]
    by (simp add: frac_le)
  finally have up: "\<bar>x\<bar> < 2 powi (bp - bq + 1)" by (simp add: s1 f(3))
  have "2 powi (bp - 1) / 2 powi bq \<le> 2 powi (bp - 1) / (of_int q :: rat)"
    using bq(2) qpos two_powi_pos [of "bp - 1"] by (simp add: frac_le)
  also have "\<dots> \<le> of_int p / of_int q"
    using bp(1) qpos by (simp add: divide_right_mono)
  finally have lo: "2 powi (bp - bq - 1) \<le> \<bar>x\<bar>" by (simp add: s2 f(3))
  have e: "expo x = (if 2 powi (bp - bq) \<le> \<bar>x\<bar> then bp - bq else bp - bq - 1)"
    by (simp add: expo_def pq bp_def bq_def Let_def)
  show "2 powi (expo x) \<le> \<bar>x\<bar>" using lo by (simp add: e)
  show "\<bar>x\<bar> < 2 powi (expo x + 1)" using up by (auto simp: e not_le)
qed


lemma rhe_cases:
  "round_half_even m = \<lfloor>m\<rfloor> \<or> round_half_even m = \<lfloor>m\<rfloor> + 1"
  by (simp add: round_half_even_def Let_def)

lemma rhe_err: "\<bar>of_int (round_half_even m) - m\<bar> \<le> 1 / 2"
proof -
  have "0 \<le> m - of_int \<lfloor>m\<rfloor>" "m - of_int \<lfloor>m\<rfloor> < 1" by linarith+
  then show ?thesis
    by (auto simp: round_half_even_def Let_def abs_le_iff)
qed

lemma rhe_of_int [simp]: "round_half_even (of_int n) = n"
  by (simp add: round_half_even_def)

lemma rhe_mono:
  assumes "a \<le> b"
  shows "round_half_even a \<le> round_half_even b"
proof (cases "\<lfloor>a\<rfloor> = \<lfloor>b\<rfloor>")
  case True
  with assms show ?thesis
    by (auto simp: round_half_even_def Let_def)
next
  case False
  with assms have "\<lfloor>a\<rfloor> + 1 \<le> \<lfloor>b\<rfloor>"
    using floor_mono [of a b] by linarith
  moreover have "round_half_even a \<le> \<lfloor>a\<rfloor> + 1" using rhe_cases [of a] by auto
  moreover have "\<lfloor>b\<rfloor> \<le> round_half_even b" using rhe_cases [of b] by auto
  ultimately show ?thesis by linarith
qed

lemma fl_zero [simp]: "fl 0 = 0"
  by (simp add: fl_def)

lemma mantissa_bounds:
  assumes "0 < x"
  shows "2 ^ 52 \<le> x / 2 powi (expo x - 52)" and "x / 2 powi (expo x - 52) < 2 ^ 53"
proof -
  have x: "x \<noteq> 0" "\<bar>x\<bar> = x" using assms by simp_all
  note p = two_powi_split52 [of "expo x"]
  note q = two_powi_split53 [of "expo x"]
  show "2 ^ 52 \<le> x / 2 powi (expo x - 52)"
    using expo_bounds(1) [OF x(1)] two_powi_pos [of "expo x - 52"]
    by (simp add: x(2) p pos_le_divide_eq)
  show "x / 2 powi (expo x - 52) < 2 ^ 53"
    using expo_bounds(2) [OF x(1)] two_powi_pos [of "expo x - 52"]
    by (simp add: x(2) q pos_divide_less_eq)
qed

lemma fl_pos_bounds:
  assumes "0 < x"
  shows "2 powi (expo x) \<le> fl x" and "fl x \<le> 2 powi (expo x + 1)"
proof -
  define e where "e = expo x - 52"
  define m where "m = x / 2 powi e"
  have f: "fl x = of_int (round_half_even m) * 2 powi e"
    using assms by (simp add: fl_def e_def m_def Let_def)
  have "round_half_even (of_int (2 ^ 52)) \<le> round_half_even m"
    using mantissa_bounds(1) [OF assms] by (intro rhe_mono) (simp add: m_def e_def)
  then have lo: "(2 ^ 52 :: rat) \<le> of_int (round_half_even m)"
    unfolding rhe_of_int by (metis of_int_le_iff of_int_numeral of_int_power)
  have "round_half_even m \<le> round_half_even (of_int (2 ^ 53))"
    using mantissa_bounds(2) [OF assms] by (intro rhe_mono) (simp add: m_def e_def)
  then have hi: "of_int (round_half_even m) \<le> (2 ^ 53 :: rat)"
    unfolding rhe_of_int by (metis of_int_le_iff of_int_numeral of_int_power)
  have p: "(2::rat) powi (expo x) = 2 ^ 52 * 2 powi e"
    unfolding e_def by (rule two_powi_split52)
  have q: "(2::rat) powi (expo x + 1) = 2 ^ 53 * 2 powi e"
    unfolding e_def by (rule two_powi_split53)
  show "2 powi (expo x) \<le> fl x"
    unfolding f p using lo two_powi_pos [of e] by (simp add: mult_right_mono)
  show "fl x \<le> 2 powi (expo x + 1)"
    unfolding f q using hi two_powi_pos [of e] by (simp add: mult_right_mono)
qed

lemma fl_nonneg:
  assumes "0 \<le> x"
  shows "0 \<le> fl x"
proof (cases "x = 0")
  case True
  then show ?thesis by simp
next
  case False
  with assms have "0 < x" by simp
  from fl_pos_bounds(1) [OF this] two_powi_pos [of "expo x"] show ?thesis by linarith
qed

lemma expo_mono:
  assumes "0 < x" and "x \<le> y"
  shows "expo x \<le> expo y"
proof -
  have "2 powi (expo x) \<le> x" using expo_bounds(1) [of x] assms by simp
  also have "x \<le> y" by fact
  also have "y < 2 powi (expo y + 1)" using expo_bounds(2) [of y] assms by simp
  finally have "(2::rat) powi (expo x) < 2 powi (expo y + 1)" .
  then have "expo x < expo y + 1" by (rule two_powi_less_imp)
  then show ?thesis by simp
qed

lemma fl_mono:
  assumes "0 \<le> x" and "x \<le> y"
  shows "fl x \<le> fl y"
proof (cases "x = 0")
  case True
  then show ?thesis using assms fl_nonneg [of y] by simp
next
  case False
  then have x: "0 < x" and y: "0 < y" using assms by simp_all
  have le: "expo x \<le> expo y" using x assms(2) by (rule expo_mono)
  show ?thesis
  proof (cases "expo x = expo y")
    case True
    have "x / 2 powi (expo x - 52) \<le> y / 2 powi (expo x - 52)"
      using assms(2) two_powi_pos [of "expo x - 52"] by (simp add: divide_right_mono)
    then have "round_half_even (x / 2 powi (expo x - 52))
        \<le> round_half_even (y / 2 powi (expo x - 52))"
      by (rule rhe_mono)
    then show ?thesis
      using x y True two_powi_pos [of "expo y - 52"]
      by (simp add: fl_def Let_def mult_right_mono)
  next
    case False
    with le have "expo x + 1 \<le> expo y" by simp
    then have "(2::rat) powi (expo x + 1) \<le> 2 powi (expo y)" by (rule two_powi_mono)
    with fl_pos_bounds(2) [OF x] fl_pos_bounds(1) [OF y] show ?thesis by linarith
  qed
qed

lemma fl_error:
  assumes "0 \<le> x"
  shows "\<bar>fl x - x\<bar> \<le> x / 2 ^ 53"
proof (cases "x = 0")
  case True
  then show ?thesis by simp
next
  case False
  then have x: "0 < x" using assms by simp
  define e where "e = expo x - 52"
  define m where "m = x / 2 powi e"
  have epos: "0 < (2::rat) powi e" by (rule two_powi_pos)
  have f: "fl x = of_int (round_half_even m) * 2 powi e"
    using x by (simp add: fl_def e_def m_def Let_def)
  have xm: "x = m * 2 powi e" using epos by (simp add: m_def)
  have "fl x - x = (of_int (round_half_even m) - m) * 2 powi e"
    by (simp add: f xm [symmetric] algebra_simps)
  then have "\<bar>fl x - x\<bar> = \<bar>of_int (round_half_even m) - m\<bar> * 2 powi e"
    using epos by (simp add: abs_mult)
  also have "\<dots> \<le> (1 / 2) * 2 powi e"
    using rhe_err [of m] epos by (intro mult_right_mono) simp_all
  also have "\<dots> \<le> (1 / 2) * (m / 2 ^ 52) * 2 powi e"
    using mantissa_bounds(1) [OF x] epos by (simp add: m_def e_def pos_le_divide_eq)
  also have "\<dots> = x / 2 ^ 53" by (simp add: xm)
  finally show ?thesis .
qed

lemma fl_of_int:
  assumes "0 \<le> n" and "n < 2 ^ 53"
  shows "fl (of_int n) = of_int n"
proof (cases "n = 0")
  case True
  then show ?thesis by simp
next
  case False
  then have n: "0 < (of_int n :: rat)" using assms by simp
  define e where "e = expo (of_int n) - 52"
  have "2 powi (expo (of_int n)) \<le> (of_int n :: rat)"
    using expo_bounds(1) [of "of_int n"] n by simp
  also have "(of_int n :: rat) < 2 powi 53" using assms(2)
    by (metis of_int_less_iff of_int_numeral of_int_power power_int_numeral)
  finally have "expo (of_int n) < 53" by (rule two_powi_less_imp)
  then have e: "e \<le> 0" by (simp add: e_def)
  have "(of_int n :: rat) / 2 powi e = of_int n * 2 powi (- e)"
    by (simp add: power_int_minus divide_inverse)
  also have "\<dots> = of_int (n * 2 ^ nat (- e))" using e by (simp add: power_int_def)
  finally have m: "(of_int n :: rat) / 2 powi e = of_int (n * 2 ^ nat (- e))" .
  have "fl (of_int n) = of_int (round_half_even (of_int n / 2 powi e)) * 2 powi e"
    using n by (simp add: fl_def e_def Let_def)
  also have "\<dots> = of_int (n * 2 ^ nat (- e)) * 2 powi e"
    unfolding m rhe_of_int ..
  also have "\<dots> = of_int n * (2 powi (- e) * 2 powi e)"
    using e by (simp add: power_int_def)
  also have "\<dots> = of_int n" by (simp add: power_int_minus)
  finally show ?thesis .
qed


lemma scaled_height_bounds:
  fixes h w :: nat
  assumes w: "1200 < w" and h: "3600 * h < 2 ^ 53"
  defines "n \<equiv> nat (py_int (fmul (float_of_int (int h)) (fl (1200 / of_nat w))))"
  shows "n * w \<le> 1200 * h" and "1200 * h \<le> n * w + w"
proof -
  define u :: rat where "u = 1 / 2 ^ 53"
  define a :: rat where "a = 1200 / of_nat w"
  define r where "r = fl a"
  define H :: rat where "H = of_nat h"
  define p where "p = fl (H * r)"
  define E where "E = H * a"
  have wpos: "0 < (of_nat w :: rat)" using w by simp
  have apos: "0 \<le> a" using wpos by (simp add: a_def)
  have Hpos: "0 \<le> H" by (simp add: H_def)
  have Epos: "0 \<le> E" using apos Hpos by (simp add: E_def)
  have upos: "0 \<le> u" "u \<le> 1" by (simp_all add: u_def)
  have flH: "fl (of_nat h) = H"
  proof -
    have "h < 2 ^ 53" using h by simp
    then have "int h < int (2 ^ 53)" by (simp only: of_nat_less_iff)
    then have "int h < 2 ^ 53" by simp
    then have "fl (of_int (int h)) = of_int (int h)" by (intro fl_of_int) simp_all
    then show ?thesis by (simp add: H_def)
  qed
  have rpos: "0 \<le> r" unfolding r_def using apos by (rule fl_nonneg)
  have r_err: "\<bar>r - a\<bar> \<le> a * u"
    using fl_error [OF apos] by (simp add: r_def u_def)
  have "\<bar>H * r - E\<bar> = H * \<bar>r - a\<bar>"
    using Hpos by (simp add: E_def abs_mult flip: right_diff_distrib)
  also have "\<dots> \<le> H * (a * u)" using r_err Hpos by (rule mult_left_mono)
  finally have hr_err: "\<bar>H * r - E\<bar> \<le> E * u" by (simp add: E_def mult.assoc)
  have hrpos: "0 \<le> H * r" using Hpos rpos by simp
  have p_err: "\<bar>p - H * r\<bar> \<le> (H * r) * u"
    using fl_error [OF hrpos] by (simp add: p_def u_def)
  have "H * r \<le> E + E * u" using hr_err by linarith
  then have "(H * r) * u \<le> (E + E * u) * u" using upos(1) by (rule mult_right_mono)
  also have "\<dots> \<le> (E + E) * u"
  proof (rule mult_right_mono)
    have "E * u \<le> E * 1" using upos(2) Epos by (rule mult_left_mono)
    then show "E + E * u \<le> E + E" by simp
  qed (rule upos(1))
  finally have "\<bar>p - H * r\<bar> \<le> 2 * E * u" using p_err by simp
  with hr_err have pE: "\<bar>p - E\<bar> \<le> 3 * E * u" by linarith
  have "3 * E * u * of_nat w = of_nat (3600 * h) * u"
    using wpos by (simp add: E_def a_def H_def)
  also have "\<dots> < 1"
  proof -
    have "(of_nat (3600 * h) :: rat) < of_nat (2 ^ 53)" using h by (simp only: of_nat_less_iff)
    then show ?thesis by (simp add: u_def)
  qed
  finally have small: "3 * E * u * of_nat w < 1" .
  have Ew: "E * of_nat w = of_nat (1200 * h)" using wpos by (simp add: E_def a_def H_def)
  have ppos: "0 \<le> p" unfolding p_def using hrpos by (rule fl_nonneg)
  have n: "n = nat \<lfloor>p\<rfloor>"
    using ppos flH by (simp add: n_def py_int_def fmul_def float_of_int_def p_def r_def a_def)
  have fpos: "0 \<le> \<lfloor>p\<rfloor>" using ppos by simp
  have nle: "(of_nat n :: rat) \<le> p" using fpos by (simp add: n)
  have ngt: "p < of_nat n + 1" using fpos by (simp add: n) linarith
  have "of_nat n * of_nat w \<le> p * (of_nat w :: rat)"
    using nle wpos by (simp add: mult_right_mono)
  also have "\<dots> \<le> (E + 3 * E * u) * of_nat w"
    using pE wpos by (intro mult_right_mono) linarith+
  also have "\<dots> < of_nat (1200 * h) + 1" using small by (simp add: distrib_right Ew)
  finally have "(of_nat (n * w) :: rat) < of_nat (1200 * h + 1)" by simp
  then have "n * w < 1200 * h + 1" by (simp only: of_nat_less_iff)
  then show "n * w \<le> 1200 * h" by simp
  have "(E - 3 * E * u) * of_nat w \<le> p * (of_nat w :: rat)"
    using pE wpos by (intro mult_right_mono) linarith+
  also have "\<dots> < (of_nat n + 1) * of_nat w"
    using ngt wpos by (simp add: mult_strict_right_mono)
  finally have "of_nat (1200 * h) - 1 < (of_nat (n * w + w) :: rat)"
    using small by (simp add: left_diff_distrib distrib_right Ew)
  then have "(of_nat (1200 * h) :: rat) < of_nat (n * w + w + 1)" by simp
  then have "1200 * h < n * w + w + 1" by (simp only: of_nat_less_iff)
  then show "1200 * h \<le> n * w + w" by simp
qed


lemma scaled_size_bounds:
  assumes "1200 < width img" and "3600 * height img < 2 ^ 53"
  shows "\<exists>h'. scaled_size img = Inr (1200, h')
           \<and> h' * width img \<le> 1200 * height img
           \<and> 1200 * height img \<le> h' * width img + width img"
proof -
  have "width img \<noteq> 0" using assms(1) by simp
  then have "scaled_size img =
      Inr (1200, nat (py_int (fmul (float_of_int (int (height img)))
                                (fl (1200 / of_nat (width img))))))"
    by (simp add: scaled_size_def py_truediv_def)
  with scaled_height_bounds [OF assms] show ?thesis by blast
qed

section \<open>Image Transcoder\<close>

lemma clamp_width_small:
  "\<not> 1200 < width img \<Longrightarrow> clamp_width P img = Inr img"
  by (simp add: clamp_width_def)

lemma clamp_width_large:
  assumes "1200 < width img" and "clamp_width P img = Inr img1"
  shows "\<exists>h'. scaled_size img = Inr (1200, h') \<and> width img1 = 1200 \<and> height img1 = h'"
proof -
  have "width img \<noteq> 0" using assms(1) by simp
  then obtain h' where s: "scaled_size img = Inr (1200, h')"
    by (simp add: scaled_size_def py_truediv_def)
  with assms show ?thesis
    by (auto simp: clamp_width_def image_resize_def split: sum.splits)
qed

lemma paste_on_white_size:
  "paste_on_white P img = Inr img' \<Longrightarrow> width img' = width img \<and> height img' = height img"
  by (auto simp: paste_on_white_def split: sum.splits)

lemma optimize_image_size:
  assumes "optimize_image P img_data = Inr (out, jpeg)"
  shows "\<exists>img img1. image_open P img_data = Inr img \<and> clamp_width P img = Inr img1
           \<and> width out = width img1 \<and> height out = height img1"
  using assms
  by (auto simp: optimize_image_def split: sum.splits if_splits dest: paste_on_white_size)

text \<open>
  C7. When the transcoding of an image with a rasterizable extension succeeds, the
  embedded value is the JPEG encoding of an image at most 1200 wide. An input at most
  1200 wide keeps its width and height. A wider input gets width 1200 and the height
  \<open>int(height * (1200 / width))\<close>, which keeps the aspect ratio up to the truncation to
  whole pixels: with the float rounding of the two operations counted in, the new height
  \<open>h'\<close> satisfies \<open>1200 * height - width \<le> h' * width \<le> 1200 * height\<close>, for every
  height below \<open>2 ^ 31\<close> (Pillow keeps sizes in C ints). The rounding is visible: a 1392 by
  145 image gets the height 124, where the exact quotient is 125.
\<close>

theorem transcoder_width_clamp:
  assumes "rasterizable (lower (path_suffix img_name))"
    and "image_open P img_data = Inr img"
    and "optimize_image P img_data = Inr (out, jpeg)"
  shows "embeddable P img_name img_data = (''image/jpeg'', jpeg)
       \<and> width out \<le> 1200
       \<and> (width img \<le> 1200 \<longrightarrow> width out = width img \<and> height out = height img)
       \<and> (1200 < width img \<longrightarrow> width out = 1200)
       \<and> (1200 < width img \<and> height img < 2 ^ 31 \<longrightarrow>
            height out * width img \<le> 1200 * height img
            \<and> 1200 * height img \<le> height out * width img + width img)"
proof -
  from optimize_image_size [OF assms(3)] assms(2)
  obtain img1 where c: "clamp_width P img = Inr img1"
    and o: "width out = width img1" "height out = height img1"
    by auto
  have e: "embeddable P img_name img_data = (''image/jpeg'', jpeg)"
    using assms(1,3) by (simp add: embeddable_def Let_def)
  show ?thesis
  proof (cases "1200 < width img")
    case False
    with c have "img1 = img" by (simp add: clamp_width_small)
    with False o e show ?thesis by simp
  next
    case True
    from clamp_width_large [OF True c]
    obtain h' where s: "scaled_size img = Inr (1200, h')"
      and w1: "width img1 = 1200" and h1: "height img1 = h'"
      by blast
    have "height out * width img \<le> 1200 * height img
        \<and> 1200 * height img \<le> height out * width img + width img"
      if "height img < 2 ^ 31"
    proof -
      from that have "3600 * height img < 2 ^ 53" by simp
      from scaled_size_bounds [OF True this] s o(2) h1 show ?thesis by auto
    qed
    with True o w1 e show ?thesis by simp
  qed
qed

theorem transcoder_width_clamp_witness:
  "rasterizable (lower (path_suffix ''images/cover.PNG''))
   \<and> image_open demo_pillow ''PNG'' =
       Inr \<lparr>width = 2400, height = 1000, mode = ''RGB'', pixels = ()\<rparr>
   \<and> optimize_image demo_pillow ''PNG'' =
       Inr (\<lparr>width = 1200, height = 500, mode = ''RGB'', pixels = ()\<rparr>, ''JFIF'')
   \<and> embeddable demo_pillow ''images/cover.PNG'' ''PNG'' = (''image/jpeg'', ''JFIF'')
   \<and> (500::nat) * 2400 \<le> 1200 * 1000 \<and> (1200::nat) * 1000 \<le> 500 * 2400 + 2400
   \<and> scaled_size \<lparr>width = 1392, height = 145, mode = ''RGB'', pixels = ()\<rparr> = Inr (1200, 124)"
proof -
  have s: "scaled_size \<lparr>width = 1392, height = 145, mode = ''RGB'', pixels = ()\<rparr> = Inr (1200, 124)"
    by code_simp
  have r: "rasterizable (lower (path_suffix ''images/cover.PNG''))"
    by code_simp
  have i: "image_open demo_pillow ''PNG'' =
      Inr \<lparr>width = 2400, height = 1000, mode = ''RGB'', pixels = ()\<rparr>"
    by code_simp
  have t: "optimize_image demo_pillow ''PNG'' =
      Inr (\<lparr>width = 1200, height = 500, mode = ''RGB'', pixels = ()\<rparr>, ''JFIF'')"
    by code_simp
  from transcoder_width_clamp [OF r i t] r i t s show ?thesis by simp
qed

section \<open>Markup Resolver\<close>

lemma descendants_named_decompose_all:
  "descendants_named name (decompose_all name t) = (if is_tag name t then [decompose_all name t] else [])"
proof (induction t)
  case (Tag n attrs cs)
  have "concat (map (descendants_named name)
          (map (decompose_all name) (filter (\<lambda>c. \<not> is_tag name c) cs))) = []"
    using Tag.IH by (induction cs) auto
  then show ?case by simp
next
  case (NavigableString s)
  show ?case by simp
qed

lemma is_tag_process_imgs [simp]: "is_tag name (process_imgs images base_path t) = is_tag name t"
  by (cases t) simp_all

lemma is_tag_decompose_all [simp]: "is_tag name (decompose_all name' t) = is_tag name t"
  by (cases t) simp_all

text \<open>
  C6. Whatever the parser returns for a chapter, the tree that \<open>_process_html_content\<close>
  serializes holds no \<open>script\<close> element, at any depth; the output of the resolver is the
  serialization of that tree.
\<close>

theorem no_script_in_output:
  "find_all ''script'' (process_soup images base_path soup) = []
   \<and> process_html_content W html_content images base_path =
       (case bs_parse W html_content of
          Inl msg \<Rightarrow> Inl (Raised msg)
        | Inr soup \<Rightarrow> Inr (bs_str W (process_soup images base_path soup)))"
proof -
  have "concat (map (descendants_named ''script'')
          (map (decompose_all ''script'') (filter (\<lambda>c. \<not> is_tag ''script'' c) ts))) = []" for ts
    by (induction ts) (auto simp: descendants_named_decompose_all)
  then have "find_all ''script'' (process_soup images base_path soup) = []"
    unfolding find_all_def process_soup_def by blast
  then show ?thesis
    by (simp add: process_html_content_def)
qed

section \<open>Resource Index\<close>

lemma store_image_key:
  "k \<in> set (image_keys img_name) \<Longrightarrow> store_image images img_name uri k = Some uri"
  by (auto simp: store_image_def image_keys_def)

lemma store_image_other:
  "k \<notin> set (image_keys img_name) \<Longrightarrow> store_image images img_name uri k = images k"
  by (auto simp: store_image_def image_keys_def)

lemma store_image_present:
  "images k \<noteq> None \<Longrightarrow> store_image images img_name uri k \<noteq> None"
  by (cases "k \<in> set (image_keys img_name)") (simp_all add: store_image_key store_image_other)

lemma extract_loop_append:
  "extract_loop P images (xs @ ys) = extract_loop P (extract_loop P images xs) ys"
  by (induction xs arbitrary: images) simp_all

lemma extract_loop_present:
  "images k \<noteq> None \<Longrightarrow> extract_loop P images xs k \<noteq> None"
proof (induction xs arbitrary: images)
  case Nil
  then show ?case by simp
next
  case (Cons a xs)
  show ?case
  proof (cases "get_type a = ITEM_IMAGE")
    case True
    from Cons.prems
    have "store_image images (get_name a) (embed_uri P (get_name a) (get_content a)) k \<noteq> None"
      by (rule store_image_present)
    then have "extract_loop P
        (store_image images (get_name a) (embed_uri P (get_name a) (get_content a))) xs k \<noteq> None"
      by (rule Cons.IH)
    with True show ?thesis by simp
  next
    case False
    with Cons show ?thesis by simp
  qed
qed

lemma extract_loop_untouched:
  assumes "\<forall>it \<in> set xs. get_type it = ITEM_IMAGE \<longrightarrow> k \<notin> set (image_keys (get_name it))"
  shows "extract_loop P images xs k = images k"
  using assms by (induction xs arbitrary: images) (simp_all add: store_image_other)

lemma unquote_slash:
  "unquote (a @ CHR ''/'' # b) = unquote a @ CHR ''/'' # unquote b"
proof (induction a rule: unquote.induct)
  case 1
  show ?case by simp
next
  case (2 c cs)
  have nothex: "hexval CHR ''/'' = None" by (simp add: hexval_def)
  show ?case
  proof (cases "c = CHR ''%''")
    case False
    with 2 show ?thesis by simp
  next
    case True
    show ?thesis
    proof (cases cs)
      case Nil
      with True nothex show ?thesis by (simp split: list.splits)
    next
      case (Cons h1 t)
      show ?thesis
      proof (cases t)
        case Nil
        with True Cons nothex 2 show ?thesis by (simp split: option.splits list.splits)
      next
        case (Cons h2 rest)
        with True \<open>cs = h1 # t\<close> 2 show ?thesis
          by (simp split: option.splits)
      qed
    qed
  qed
qed

lemma basename_slash:
  assumes "CHR ''/'' \<notin> set b"
  shows "basename (a @ CHR ''/'' # b) = b"
proof -
  have "takeWhile (\<lambda>c. c \<noteq> CHR ''/'') (rev b @ CHR ''/'' # rev a) = rev b"
    using assms by (subst takeWhile_append2) auto
  then show ?thesis by (simp add: basename_def)
qed

lemma basename_no_slash:
  assumes "CHR ''/'' \<notin> set b"
  shows "basename b = b"
proof -
  have t: "takeWhile (\<lambda>c. c \<noteq> CHR ''/'') (rev b) = rev b"
    using assms by auto
  show ?thesis unfolding basename_def t by simp
qed

lemma basename_decompose:
  "p = basename p \<or> (\<exists>a. p = a @ CHR ''/'' # basename p)"
proof (cases "dropWhile (\<lambda>c. c \<noteq> CHR ''/'') (rev p)")
  case Nil
  have "takeWhile (\<lambda>c. c \<noteq> CHR ''/'') (rev p) @ dropWhile (\<lambda>c. c \<noteq> CHR ''/'') (rev p) = rev p"
    by (rule takeWhile_dropWhile_id)
  then have t: "takeWhile (\<lambda>c. c \<noteq> CHR ''/'') (rev p) = rev p"
    unfolding Nil by simp
  have "basename p = p" unfolding basename_def t by simp
  then show ?thesis by simp
next
  case (Cons x d)
  have "\<not> (hd (dropWhile (\<lambda>c. c \<noteq> CHR ''/'') (rev p)) \<noteq> CHR ''/'')"
    by (rule hd_dropWhile) (simp add: Cons)
  then have x: "x = CHR ''/''" unfolding Cons by simp
  have "takeWhile (\<lambda>c. c \<noteq> CHR ''/'') (rev p) @ dropWhile (\<lambda>c. c \<noteq> CHR ''/'') (rev p) = rev p"
    by (rule takeWhile_dropWhile_id)
  then have "rev (takeWhile (\<lambda>c. c \<noteq> CHR ''/'') (rev p) @ CHR ''/'' # d) = rev (rev p)"
    unfolding Cons x by (rule arg_cong)
  then have "p = rev d @ CHR ''/'' # basename p"
    unfolding basename_def by simp
  then show ?thesis by blast
qed

lemma basename_has_no_slash: "CHR ''/'' \<notin> set (basename p)"
  using set_takeWhileD [of "CHR ''/''" "\<lambda>c. c \<noteq> CHR ''/''" "rev p"]
  by (auto simp: basename_def)

lemma basename_unquote:
  assumes "CHR ''/'' \<notin> set (unquote (basename p))"
  shows "basename (unquote p) = unquote (basename p)"
  using basename_decompose [of p]
proof
  assume "p = basename p"
  with assms show ?thesis by (metis basename_no_slash)
next
  assume "\<exists>a. p = a @ CHR ''/'' # basename p"
  then obtain a where "p = a @ CHR ''/'' # basename p" ..
  then have "unquote p = unquote a @ CHR ''/'' # unquote (basename p)"
    by (metis unquote_slash)
  with assms show ?thesis by (simp add: basename_slash)
qed

lemma encoded_slash_keys:
  "image_keys ''img/a%2Fb.gif'' = [''img/a%2Fb.gif'', ''a%2Fb.gif'', ''img/a/b.gif'', ''a/b.gif'']
   \<and> basename (unquote ''img/a%2Fb.gif'') = ''b.gif''"
  by code_simp

lemma extract_loop_last_writer:
  assumes "xs = mid @ it # post" and "get_type it = ITEM_IMAGE"
    and "k \<in> set (image_keys (get_name it))"
    and "\<forall>x \<in> set post. get_type x = ITEM_IMAGE \<longrightarrow> k \<notin> set (image_keys (get_name x))"
  shows "extract_loop P images xs k = Some (embed_uri P (get_name it) (get_content it))"
proof -
  define m where "m = store_image (extract_loop P images mid) (get_name it)
    (embed_uri P (get_name it) (get_content it))"
  have "extract_loop P images xs = extract_loop P m post"
    using assms(1,2) by (simp add: extract_loop_append m_def)
  moreover have "extract_loop P m post k = m k"
    using assms(4) by (rule extract_loop_untouched)
  moreover have "m k = Some (embed_uri P (get_name it) (get_content it))"
    unfolding m_def using assms(3) by (rule store_image_key)
  ultimately show ?thesis by simp
qed

lemma last_writer_exists:
  assumes "get_type it = ITEM_IMAGE" and "k \<in> set (image_keys (get_name it))"
  shows "\<exists>mid it' post'. it # post = mid @ it' # post' \<and> get_type it' = ITEM_IMAGE
           \<and> k \<in> set (image_keys (get_name it'))
           \<and> (\<forall>x \<in> set post'. get_type x = ITEM_IMAGE \<longrightarrow> k \<notin> set (image_keys (get_name x)))"
proof -
  have "\<exists>x \<in> set (it # post). get_type x = ITEM_IMAGE \<and> k \<in> set (image_keys (get_name x))"
    using assms by simp
  then obtain ys x zs where "it # post = ys @ x # zs"
      "get_type x = ITEM_IMAGE \<and> k \<in> set (image_keys (get_name x))"
      "\<forall>z \<in> set zs. \<not> (get_type z = ITEM_IMAGE \<and> k \<in> set (image_keys (get_name z)))"
    by (rule split_list_last_propE)
  then show ?thesis by blast
qed

text \<open>
  C2, as the code has it. The keys an image is stored under are its raw path, its
  basename, the percent-decoded path and the percent-decoded basename; the last is the
  basename of the decoded path whenever decoding the basename brings in no \<open>/\<close>. All four
  are keys of the resulting mapping, and each of them maps to the embeddable value (the
  data URI of the MIME type and the base64 payload) of the last image of the book, in
  item order, that is stored under that key. So a key that no later image is stored under
  maps to the value of the image itself, a key shared with later images maps to the value
  of the last of them, and all four keys map to the one value of the image when no later
  image shares any of them, as for the last image of the book.
\<close>

theorem resource_index_keys:
  assumes "book_items b = pre @ it # post" and "get_type it = ITEM_IMAGE"
  shows "(\<forall>k \<in> set (image_keys (get_name it)). extract_images P b k \<noteq> None)
       \<and> (\<forall>k \<in> set (image_keys (get_name it)).
            \<exists>mid it' post'. it # post = mid @ it' # post' \<and> get_type it' = ITEM_IMAGE
              \<and> k \<in> set (image_keys (get_name it'))
              \<and> (\<forall>x \<in> set post'. get_type x = ITEM_IMAGE \<longrightarrow> k \<notin> set (image_keys (get_name x)))
              \<and> extract_images P b k = Some (embed_uri P (get_name it') (get_content it')))
       \<and> (\<forall>k \<in> set (image_keys (get_name it)).
            (\<forall>it' \<in> set post. get_type it' = ITEM_IMAGE \<longrightarrow> k \<notin> set (image_keys (get_name it'))) \<longrightarrow>
            extract_images P b k = Some (embed_uri P (get_name it) (get_content it)))
       \<and> (\<forall>k \<in> set (image_keys (get_name it)). \<forall>mid it' post'.
            post = mid @ it' # post' \<and> get_type it' = ITEM_IMAGE
              \<and> k \<in> set (image_keys (get_name it'))
              \<and> (\<forall>x \<in> set post'. get_type x = ITEM_IMAGE \<longrightarrow> k \<notin> set (image_keys (get_name x))) \<longrightarrow>
            extract_images P b k = Some (embed_uri P (get_name it') (get_content it')))
       \<and> ((\<forall>it' \<in> set post. get_type it' = ITEM_IMAGE \<longrightarrow>
              set (image_keys (get_name it')) \<inter> set (image_keys (get_name it)) = {}) \<longrightarrow>
           (\<forall>k \<in> set (image_keys (get_name it)).
              extract_images P b k = Some (embed_uri P (get_name it) (get_content it))))
       \<and> (CHR ''/'' \<notin> set (unquote (basename (get_name it))) \<longrightarrow>
           image_keys (get_name it) =
             [get_name it, basename (get_name it), unquote (get_name it),
              basename (unquote (get_name it))])"
proof -
  have e: "extract_images P b = extract_loop P Map.empty (pre @ it # post)"
    using assms(1) by (simp add: extract_images_def)
  have own: "extract_images P b k = Some (embed_uri P (get_name it) (get_content it))"
    if k: "k \<in> set (image_keys (get_name it))"
      and d: "\<forall>it' \<in> set post. get_type it' = ITEM_IMAGE \<longrightarrow> k \<notin> set (image_keys (get_name it'))"
    for k
    unfolding e using refl assms(2) k d by (rule extract_loop_last_writer)
  have later: "extract_images P b k = Some (embed_uri P (get_name it') (get_content it'))"
    if p: "post = mid @ it' # post'" and t: "get_type it' = ITEM_IMAGE"
      and k: "k \<in> set (image_keys (get_name it'))"
      and d: "\<forall>x \<in> set post'. get_type x = ITEM_IMAGE \<longrightarrow> k \<notin> set (image_keys (get_name x))"
    for k mid it' post'
  proof -
    have "pre @ it # post = (pre @ it # mid) @ it' # post'" by (simp add: p)
    then show ?thesis unfolding e using t k d by (rule extract_loop_last_writer)
  qed
  have last: "\<exists>mid it' post'. it # post = mid @ it' # post' \<and> get_type it' = ITEM_IMAGE
        \<and> k \<in> set (image_keys (get_name it'))
        \<and> (\<forall>x \<in> set post'. get_type x = ITEM_IMAGE \<longrightarrow> k \<notin> set (image_keys (get_name x)))
        \<and> extract_images P b k = Some (embed_uri P (get_name it') (get_content it'))"
    if k: "k \<in> set (image_keys (get_name it))" for k
  proof -
    from last_writer_exists [OF assms(2) k, of post]
    obtain mid it' post' where s: "it # post = mid @ it' # post'" "get_type it' = ITEM_IMAGE"
        "k \<in> set (image_keys (get_name it'))"
        "\<forall>x \<in> set post'. get_type x = ITEM_IMAGE \<longrightarrow> k \<notin> set (image_keys (get_name x))"
      by blast
    have "pre @ it # post = (pre @ mid) @ it' # post'" by (simp add: s(1))
    then have "extract_loop P Map.empty (pre @ it # post) k
        = Some (embed_uri P (get_name it') (get_content it'))"
      using s(2,3,4) by (rule extract_loop_last_writer)
    with s show ?thesis unfolding e by blast
  qed
  have present: "extract_images P b k \<noteq> None" if "k \<in> set (image_keys (get_name it))" for k
    using last [OF that] by auto
  have same: "extract_images P b k = Some (embed_uri P (get_name it) (get_content it))"
    if d: "\<forall>it' \<in> set post. get_type it' = ITEM_IMAGE \<longrightarrow>
             set (image_keys (get_name it')) \<inter> set (image_keys (get_name it)) = {}"
      and k: "k \<in> set (image_keys (get_name it))" for k
  proof -
    from d k have "\<forall>it' \<in> set post. get_type it' = ITEM_IMAGE \<longrightarrow> k \<notin> set (image_keys (get_name it'))"
      by blast
    with k show ?thesis by (rule own)
  qed
  have keys: "image_keys (get_name it) =
      [get_name it, basename (get_name it), unquote (get_name it), basename (unquote (get_name it))]"
    if "CHR ''/'' \<notin> set (unquote (basename (get_name it)))"
    using basename_unquote [OF that] by (simp add: image_keys_def)
  show ?thesis
  proof (intro conjI ballI impI allI)
    fix k assume "k \<in> set (image_keys (get_name it))"
    then show "extract_images P b k \<noteq> None" by (rule present)
  next
    fix k assume "k \<in> set (image_keys (get_name it))"
    then show "\<exists>mid it' post'. it # post = mid @ it' # post' \<and> get_type it' = ITEM_IMAGE
        \<and> k \<in> set (image_keys (get_name it'))
        \<and> (\<forall>x \<in> set post'. get_type x = ITEM_IMAGE \<longrightarrow> k \<notin> set (image_keys (get_name x)))
        \<and> extract_images P b k = Some (embed_uri P (get_name it') (get_content it'))"
      by (rule last)
  next
    fix k assume "k \<in> set (image_keys (get_name it))"
      "\<forall>it' \<in> set post. get_type it' = ITEM_IMAGE \<longrightarrow> k \<notin> set (image_keys (get_name it'))"
    then show "extract_images P b k = Some (embed_uri P (get_name it) (get_content it))"
      by (rule own)
  next
    fix k mid it' post'
    assume "k \<in> set (image_keys (get_name it))"
      and "post = mid @ it' # post' \<and> get_type it' = ITEM_IMAGE
        \<and> k \<in> set (image_keys (get_name it'))
        \<and> (\<forall>x \<in> set post'. get_type x = ITEM_IMAGE \<longrightarrow> k \<notin> set (image_keys (get_name x)))"
    then show "extract_images P b k = Some (embed_uri P (get_name it') (get_content it'))"
      using later by blast
  next
    fix k
    assume "\<forall>it' \<in> set post. get_type it' = ITEM_IMAGE \<longrightarrow>
        set (image_keys (get_name it')) \<inter> set (image_keys (get_name it)) = {}"
      and "k \<in> set (image_keys (get_name it))"
    then show "extract_images P b k = Some (embed_uri P (get_name it) (get_content it))"
      by (rule same)
  next
    assume "CHR ''/'' \<notin> set (unquote (basename (get_name it)))"
    then show "image_keys (get_name it) =
      [get_name it, basename (get_name it), unquote (get_name it), basename (unquote (get_name it))]"
      by (rule keys)
  qed
qed

theorem resource_index_keys_witness:
  "book_items two_images = [] @ image_item ''img/a%20b.gif'' ''A'' # [image_item ''img/c.svg'' ''B'']
   \<and> get_type (image_item ''img/a%20b.gif'' ''A'') = ITEM_IMAGE
   \<and> extract_images demo_pillow two_images ''img/a%20b.gif'' = Some ''data:image/gif;base64,QQ==''
   \<and> extract_images demo_pillow two_images ''a%20b.gif'' = Some ''data:image/gif;base64,QQ==''
   \<and> extract_images demo_pillow two_images ''img/a b.gif'' = Some ''data:image/gif;base64,QQ==''
   \<and> extract_images demo_pillow two_images ''a b.gif'' = Some ''data:image/gif;base64,QQ==''
   \<and> basename (unquote ''img/a%20b.gif'') = ''a b.gif''
   \<and> book_items same_names =
        [image_item ''x/a%20b.gif'' ''A''] @ image_item ''y/a%20b.gif'' ''B'' # [image_item ''z/a b.gif'' ''C'']
   \<and> image_keys ''y/a%20b.gif'' = [''y/a%20b.gif'', ''a%20b.gif'', ''y/a b.gif'', ''a b.gif'']
   \<and> extract_images demo_pillow same_names ''y/a%20b.gif'' = Some ''data:image/gif;base64,Qg==''
   \<and> extract_images demo_pillow same_names ''a%20b.gif'' = Some ''data:image/gif;base64,Qg==''
   \<and> extract_images demo_pillow same_names ''y/a b.gif'' = Some ''data:image/gif;base64,Qg==''
   \<and> extract_images demo_pillow same_names ''a b.gif'' = Some ''data:image/gif;base64,Qw==''"
proof -
  define it where "it = image_item ''img/a%20b.gif'' ''A''"
  have n: "get_name it = ''img/a%20b.gif''" "get_content it = ''A''"
    by (simp_all add: it_def image_item_def)
  have h1: "book_items two_images = [] @ it # [image_item ''img/c.svg'' ''B'']"
    by (simp add: two_images_def it_def)
  have h2: "get_type it = ITEM_IMAGE" by (simp add: it_def image_item_def)
  have ks: "image_keys ''img/a%20b.gif'' = [''img/a%20b.gif'', ''a%20b.gif'', ''img/a b.gif'', ''a b.gif'']"
    by code_simp
  have ks': "image_keys ''img/c.svg'' = [''img/c.svg'', ''c.svg'', ''img/c.svg'', ''c.svg'']"
    by code_simp
  have u: "embed_uri demo_pillow ''img/a%20b.gif'' ''A'' = ''data:image/gif;base64,QQ==''"
    by code_simp
  have b: "basename (unquote ''img/a%20b.gif'') = ''a b.gif''" by code_simp
  have d: "\<forall>it' \<in> set [image_item ''img/c.svg'' ''B'']. get_type it' = ITEM_IMAGE \<longrightarrow>
      set (image_keys (get_name it')) \<inter> set (image_keys (get_name it)) = {}"
    by (simp add: n image_item_def ks ks')
  from resource_index_keys [OF h1 h2, of demo_pillow] d
  have "\<forall>k \<in> set (image_keys (get_name it)).
      extract_images demo_pillow two_images k = Some (embed_uri demo_pillow (get_name it) (get_content it))"
    by blast
  then have "\<forall>k \<in> set [''img/a%20b.gif'', ''a%20b.gif'', ''img/a b.gif'', ''a b.gif''].
      extract_images demo_pillow two_images k = Some ''data:image/gif;base64,QQ==''"
    unfolding n ks u .
  then have first: "extract_images demo_pillow two_images ''img/a%20b.gif'' = Some ''data:image/gif;base64,QQ==''
      \<and> extract_images demo_pillow two_images ''a%20b.gif'' = Some ''data:image/gif;base64,QQ==''
      \<and> extract_images demo_pillow two_images ''img/a b.gif'' = Some ''data:image/gif;base64,QQ==''
      \<and> extract_images demo_pillow two_images ''a b.gif'' = Some ''data:image/gif;base64,QQ==''"
    by (simp only: list.set ball_simps)
  define x where "x = image_item ''x/a%20b.gif'' ''A''"
  define y where "y = image_item ''y/a%20b.gif'' ''B''"
  define z where "z = image_item ''z/a b.gif'' ''C''"
  have ny: "get_name y = ''y/a%20b.gif''" "get_content y = ''B''"
    by (simp_all add: y_def image_item_def)
  have nz: "get_name z = ''z/a b.gif''" "get_content z = ''C''"
    by (simp_all add: z_def image_item_def)
  have g1: "book_items same_names = [x] @ y # [z]"
    by (simp add: same_names_def x_def y_def z_def)
  have g2: "get_type y = ITEM_IMAGE" by (simp add: y_def image_item_def)
  have g3: "get_type z = ITEM_IMAGE" by (simp add: z_def image_item_def)
  have ky: "image_keys ''y/a%20b.gif'' = [''y/a%20b.gif'', ''a%20b.gif'', ''y/a b.gif'', ''a b.gif'']"
    by code_simp
  have kz: "image_keys ''z/a b.gif'' = [''z/a b.gif'', ''a b.gif'', ''z/a b.gif'', ''a b.gif'']"
    by code_simp
  have uy: "embed_uri demo_pillow ''y/a%20b.gif'' ''B'' = ''data:image/gif;base64,Qg==''"
    by code_simp
  have uz: "embed_uri demo_pillow ''z/a b.gif'' ''C'' = ''data:image/gif;base64,Qw==''"
    by code_simp
  note inst = resource_index_keys [OF g1 g2, of demo_pillow]
  have own: "extract_images demo_pillow same_names k = Some ''data:image/gif;base64,Qg==''"
    if "k \<in> set (image_keys (get_name y))"
      and "\<forall>it' \<in> set [z]. get_type it' = ITEM_IMAGE \<longrightarrow> k \<notin> set (image_keys (get_name it'))"
    for k
    using inst that unfolding ny uy by blast
  have o1: "extract_images demo_pillow same_names ''y/a%20b.gif'' = Some ''data:image/gif;base64,Qg==''"
    by (rule own) (simp_all add: ny nz ky kz)
  have o2: "extract_images demo_pillow same_names ''a%20b.gif'' = Some ''data:image/gif;base64,Qg==''"
    by (rule own) (simp_all add: ny nz ky kz)
  have o3: "extract_images demo_pillow same_names ''y/a b.gif'' = Some ''data:image/gif;base64,Qg==''"
    by (rule own) (simp_all add: ny nz ky kz)
  have sk: "''a b.gif'' \<in> set (image_keys (get_name y))" by (simp add: ny ky)
  have sh: "[z] = [] @ z # [] \<and> get_type z = ITEM_IMAGE
      \<and> ''a b.gif'' \<in> set (image_keys (get_name z))
      \<and> (\<forall>x \<in> set []. get_type x = ITEM_IMAGE \<longrightarrow> ''a b.gif'' \<notin> set (image_keys (get_name x)))"
    by (simp add: g3 nz kz)
  from inst sk sh
  have "extract_images demo_pillow same_names ''a b.gif''
      = Some (embed_uri demo_pillow (get_name z) (get_content z))"
    by blast
  then have o4: "extract_images demo_pillow same_names ''a b.gif'' = Some ''data:image/gif;base64,Qw==''"
    unfolding nz uz .
  from h1 h2 b first g1 ky o1 o2 o3 o4 show ?thesis unfolding it_def x_def y_def z_def by blast
qed

theorem resource_index_keys_counterexample:
  "image_item ''ch1/fig.gif'' ''A'' \<in> set (book_items two_folders)
   \<and> extract_images demo_pillow two_folders ''ch1/fig.gif'' = Some ''data:image/gif;base64,QQ==''
   \<and> extract_images demo_pillow two_folders (basename ''ch1/fig.gif'')
       = Some ''data:image/gif;base64,Qg==''
   \<and> extract_images demo_pillow two_folders ''ch1/fig.gif''
       \<noteq> extract_images demo_pillow two_folders (basename ''ch1/fig.gif'')"
proof -
  have a: "extract_images demo_pillow two_folders ''ch1/fig.gif'' = Some ''data:image/gif;base64,QQ==''"
    by code_simp
  have b: "extract_images demo_pillow two_folders (basename ''ch1/fig.gif'')
      = Some ''data:image/gif;base64,Qg==''"
    by code_simp
  have c: "image_item ''ch1/fig.gif'' ''A'' \<in> set (book_items two_folders)"
    by (simp add: two_folders_def)
  show ?thesis unfolding a b using c by simp
qed

section \<open>Candidate order of the resolver\<close>

lemma first_match_append:
  "first_match images (xs @ ys) =
     (case first_match images xs of Some uri \<Rightarrow> Some uri | None \<Rightarrow> first_match images ys)"
  by (induction xs) (simp_all split: option.splits)

lemma first_match_None_iff:
  "first_match images vs = None \<longleftrightarrow> (\<forall>v \<in> set vs. images (lstrip v ''./'') = None)"
  by (induction vs) (simp_all split: option.splits)

lemma first_match_Some_iff:
  "first_match images vs = Some uri \<longleftrightarrow>
     (\<exists>i < length vs. images (lstrip (vs ! i) ''./'') = Some uri
        \<and> (\<forall>j < i. images (lstrip (vs ! j) ''./'') = None))"
proof (induction vs)
  case Nil
  show ?case by simp
next
  case (Cons v vs)
  show ?case
  proof (cases "images (lstrip v ''./'')")
    case (Some u)
    have "(\<exists>i < length (v # vs). images (lstrip ((v # vs) ! i) ''./'') = Some uri
        \<and> (\<forall>j < i. images (lstrip ((v # vs) ! j) ''./'') = None)) \<longleftrightarrow> u = uri"
    proof
      assume "\<exists>i < length (v # vs). images (lstrip ((v # vs) ! i) ''./'') = Some uri
        \<and> (\<forall>j < i. images (lstrip ((v # vs) ! j) ''./'') = None)"
      then obtain i where i: "images (lstrip ((v # vs) ! i) ''./'') = Some uri"
        and m: "\<forall>j < i. images (lstrip ((v # vs) ! j) ''./'') = None" by blast
      have "i = 0"
      proof (rule ccontr)
        assume "i \<noteq> 0"
        then have "0 < i" by simp
        with m have "images (lstrip ((v # vs) ! 0) ''./'') = None" by blast
        with Some show False by simp
      qed
      with i Some show "u = uri" by simp
    next
      assume "u = uri"
      with Some have "images (lstrip ((v # vs) ! 0) ''./'') = Some uri
          \<and> (\<forall>j < 0. images (lstrip ((v # vs) ! j) ''./'') = None)" by simp
      then show "\<exists>i < length (v # vs). images (lstrip ((v # vs) ! i) ''./'') = Some uri
        \<and> (\<forall>j < i. images (lstrip ((v # vs) ! j) ''./'') = None)" by blast
    qed
    with Some show ?thesis by simp
  next
    case None
    have "(\<exists>i < length (v # vs). images (lstrip ((v # vs) ! i) ''./'') = Some uri
        \<and> (\<forall>j < i. images (lstrip ((v # vs) ! j) ''./'') = None))
      \<longleftrightarrow> (\<exists>i < length vs. images (lstrip (vs ! i) ''./'') = Some uri
        \<and> (\<forall>j < i. images (lstrip (vs ! j) ''./'') = None))" (is "?L \<longleftrightarrow> ?R")
    proof
      assume ?L
      then obtain i where l: "i < length (v # vs)"
        and i: "images (lstrip ((v # vs) ! i) ''./'') = Some uri"
        and m: "\<forall>j < i. images (lstrip ((v # vs) ! j) ''./'') = None" by blast
      from i None have "i \<noteq> 0" by (cases i) auto
      then obtain k where k: "i = Suc k" by (cases i) auto
      from l i k have "k < length vs" "images (lstrip (vs ! k) ''./'') = Some uri" by simp_all
      moreover have "\<forall>j < k. images (lstrip (vs ! j) ''./'') = None"
      proof (intro allI impI)
        fix j assume "j < k"
        then have "Suc j < i" using k by simp
        with m have "images (lstrip ((v # vs) ! Suc j) ''./'') = None" by blast
        then show "images (lstrip (vs ! j) ''./'') = None" by simp
      qed
      ultimately show ?R by blast
    next
      assume ?R
      then obtain k where l: "k < length vs"
        and i: "images (lstrip (vs ! k) ''./'') = Some uri"
        and m: "\<forall>j < k. images (lstrip (vs ! j) ''./'') = None" by blast
      have "\<forall>j < Suc k. images (lstrip ((v # vs) ! j) ''./'') = None"
      proof (intro allI impI)
        fix j assume "j < Suc k"
        show "images (lstrip ((v # vs) ! j) ''./'') = None"
        proof (cases j)
          case 0
          with None show ?thesis by simp
        next
          case (Suc j')
          with \<open>j < Suc k\<close> m show ?thesis by simp
        qed
      qed
      with l i have "Suc k < length (v # vs) \<and> images (lstrip ((v # vs) ! Suc k) ''./'') = Some uri
          \<and> (\<forall>j < Suc k. images (lstrip ((v # vs) ! j) ''./'') = None)" by simp
      then show ?L by blast
    qed
    with None Cons.IH show ?thesis by simp
  qed
qed

lemma map_of_dict_set: "map_of (dict_set k v d) k = Some v"
  by (induction d) auto

lemma resolve_img_src:
  assumes "map_of attrs ''src'' = Some src" and "src \<noteq> []"
    and "first_match images (src_variants src base_path) \<noteq> None"
  shows "map_of (resolve_img images base_path attrs) ''src'' = Some (resolve_src images base_path src)"
  using assms by (auto simp: resolve_img_def resolve_src_def map_of_dict_set)

text \<open>
  C3, as the code has it. The candidates are tried in the order of the list: the four
  bare forms first (the literal reference, the decoded reference, the basename of each),
  and the two forms resolved relative to the chapter's path last, and only when the base
  path is not empty. Each candidate is looked up without its leading \<open>.\<close> and \<open>/\<close>
  characters. The first candidate that is a key of the index gives the new reference:
  a bare form that is present wins over the relative forms, the relative forms decide
  only when no bare form is present, and the reference stays as it is when no candidate
  is present.
\<close>

theorem resolver_candidate_order:
  "src_variants src base_path =
     [src, unquote src, basename src, basename (unquote src)]
     @ (if base_path \<noteq> [] then
          [normpath (path_join (dirname base_path) src),
           normpath (path_join (dirname base_path) (unquote src))]
        else [])
   \<and> (first_match images (src_variants src base_path) = Some uri \<longleftrightarrow>
        (\<exists>i < length (src_variants src base_path).
           images (lstrip (src_variants src base_path ! i) ''./'') = Some uri
           \<and> (\<forall>j < i. images (lstrip (src_variants src base_path ! j) ''./'') = None)))
   \<and> (first_match images [src, unquote src, basename src, basename (unquote src)] = Some uri
        \<longrightarrow> resolve_src images base_path src = uri)
   \<and> (first_match images [src, unquote src, basename src, basename (unquote src)] = None
        \<and> base_path \<noteq> []
        \<and> first_match images
            [normpath (path_join (dirname base_path) src),
             normpath (path_join (dirname base_path) (unquote src))] = Some uri
        \<longrightarrow> resolve_src images base_path src = uri)
   \<and> (first_match images (src_variants src base_path) = None
        \<longrightarrow> resolve_src images base_path src = src)
   \<and> (map_of attrs ''src'' = Some src \<and> src \<noteq> []
        \<and> first_match images (src_variants src base_path) \<noteq> None
        \<longrightarrow> map_of (resolve_img images base_path attrs) ''src''
            = Some (resolve_src images base_path src))"
proof -
  define bare where "bare = [src, unquote src, basename src, basename (unquote src)]"
  define rel where "rel = [normpath (path_join (dirname base_path) src),
    normpath (path_join (dirname base_path) (unquote src))]"
  have v: "src_variants src base_path = bare @ (if base_path \<noteq> [] then rel else [])"
    by (simp add: src_variants_def bare_def rel_def)
  have a: "resolve_src images base_path src = uri" if "first_match images bare = Some uri"
    using that by (simp add: resolve_src_def v first_match_append)
  have b: "resolve_src images base_path src = uri"
    if "first_match images bare = None" "base_path \<noteq> []" "first_match images rel = Some uri"
    using that by (simp add: resolve_src_def v first_match_append)
  have c: "resolve_src images base_path src = src"
    if "first_match images (src_variants src base_path) = None"
    using that by (simp add: resolve_src_def)
  have d: "map_of (resolve_img images base_path attrs) ''src'' = Some (resolve_src images base_path src)"
    if "map_of attrs ''src'' = Some src \<and> src \<noteq> []
        \<and> first_match images (src_variants src base_path) \<noteq> None"
    using that resolve_img_src by blast
  from v a b c d first_match_Some_iff [of images "src_variants src base_path" uri]
  show ?thesis unfolding bare_def rel_def by blast
qed

theorem resolver_candidate_order_witness:
  "first_match (extract_images demo_pillow two_folders)
       [''fig.gif'', unquote ''fig.gif'', basename ''fig.gif'', basename (unquote ''fig.gif'')]
     = Some ''data:image/gif;base64,Qg==''
   \<and> resolve_src (extract_images demo_pillow two_folders) ''ch1/chapter.xhtml'' ''fig.gif''
     = ''data:image/gif;base64,Qg==''
   \<and> first_match one_image
       [''fig.gif'', unquote ''fig.gif'', basename ''fig.gif'', basename (unquote ''fig.gif'')] = None
   \<and> first_match one_image
       [normpath (path_join (dirname ''ch1/chapter.xhtml'') ''fig.gif''),
        normpath (path_join (dirname ''ch1/chapter.xhtml'') (unquote ''fig.gif''))]
     = Some ''data:image/gif;base64,QQ==''
   \<and> resolve_src one_image ''ch1/chapter.xhtml'' ''fig.gif'' = ''data:image/gif;base64,QQ==''
   \<and> first_match one_image (src_variants ''fig.gif'' []) = None
   \<and> resolve_src one_image [] ''fig.gif'' = ''fig.gif''
   \<and> map_of (resolve_img one_image ''ch1/chapter.xhtml'' [(''alt'', ''x''), (''src'', ''fig.gif'')]) ''src''
     = Some ''data:image/gif;base64,QQ==''"
proof -
  have a: "first_match (extract_images demo_pillow two_folders)
       [''fig.gif'', unquote ''fig.gif'', basename ''fig.gif'', basename (unquote ''fig.gif'')]
     = Some ''data:image/gif;base64,Qg=='' "
    by code_simp
  have b1: "first_match one_image
       [''fig.gif'', unquote ''fig.gif'', basename ''fig.gif'', basename (unquote ''fig.gif'')] = None"
    by code_simp
  have b2: "first_match one_image
       [normpath (path_join (dirname ''ch1/chapter.xhtml'') ''fig.gif''),
        normpath (path_join (dirname ''ch1/chapter.xhtml'') (unquote ''fig.gif''))]
     = Some ''data:image/gif;base64,QQ=='' "
    by code_simp
  have b3: "''ch1/chapter.xhtml'' \<noteq> []" by simp
  have c: "first_match one_image (src_variants ''fig.gif'' []) = None"
    by code_simp
  have d: "map_of [(''alt'', ''x''), (''src'', ''fig.gif'')] ''src'' = Some ''fig.gif''"
    "''fig.gif'' \<noteq> []"
    "first_match one_image (src_variants ''fig.gif'' ''ch1/chapter.xhtml'') \<noteq> None"
    by code_simp+
  note t1 = resolver_candidate_order
    [of "''fig.gif''" "''ch1/chapter.xhtml''" "extract_images demo_pillow two_folders"
        "''data:image/gif;base64,Qg==''" "[]"]
  note t2 = resolver_candidate_order
    [of "''fig.gif''" "''ch1/chapter.xhtml''" one_image "''data:image/gif;base64,QQ==''"
        "[(''alt'', ''x''), (''src'', ''fig.gif'')]"]
  note t3 = resolver_candidate_order
    [of "''fig.gif''" "[]" one_image "''data:image/gif;base64,QQ==''" "[]"]
  from t1 a have r1: "resolve_src (extract_images demo_pillow two_folders) ''ch1/chapter.xhtml'' ''fig.gif''
     = ''data:image/gif;base64,Qg=='' " by blast
  from t2 b1 b2 b3 have r2: "resolve_src one_image ''ch1/chapter.xhtml'' ''fig.gif''
     = ''data:image/gif;base64,QQ=='' " by blast
  from t3 c have r3: "resolve_src one_image [] ''fig.gif'' = ''fig.gif''" by blast
  from t2 d have "map_of (resolve_img one_image ''ch1/chapter.xhtml'' [(''alt'', ''x''), (''src'', ''fig.gif'')]) ''src''
     = Some (resolve_src one_image ''ch1/chapter.xhtml'' ''fig.gif'')" by blast
  then have r4: "map_of (resolve_img one_image ''ch1/chapter.xhtml'' [(''alt'', ''x''), (''src'', ''fig.gif'')]) ''src''
     = Some ''data:image/gif;base64,QQ=='' " unfolding r2 .
  from a r1 b1 b2 r2 c r3 r4 show ?thesis by blast
qed

theorem resolver_candidate_order_counterexample:
  "extract_images demo_pillow two_folders
       (lstrip (normpath (path_join (dirname ''ch1/chapter.xhtml'') ''fig.gif'')) ''./'')
     = Some ''data:image/gif;base64,QQ==''
   \<and> resolve_src (extract_images demo_pillow two_folders) ''ch1/chapter.xhtml'' ''fig.gif''
     = ''data:image/gif;base64,Qg==''
   \<and> resolve_src (extract_images demo_pillow two_folders) ''ch1/chapter.xhtml'' ''fig.gif''
     \<noteq> ''data:image/gif;base64,QQ==''"
proof -
  have a: "extract_images demo_pillow two_folders
       (lstrip (normpath (path_join (dirname ''ch1/chapter.xhtml'') ''fig.gif'')) ''./'')
     = Some ''data:image/gif;base64,QQ=='' "
    by code_simp
  have b: "resolve_src (extract_images demo_pillow two_folders) ''ch1/chapter.xhtml'' ''fig.gif''
     = ''data:image/gif;base64,Qg=='' "
    by code_simp
  show ?thesis unfolding a b by simp
qed

section \<open>Conversion Pipeline\<close>

lemma fl_constants:
  "fl (fl (2 / 10)) = fl (2 / 10)"
  "fl (fl (2 / 10) + 1 / 2) = fl (7 / 10)"
  "fl (1 / 2) = 1 / 2"
  "fl 1 = 1"
  "0 \<le> fl (1 / 10)"
  "fl (1 / 10) \<le> fl (2 / 10)"
  "fl (2 / 10) \<le> fl (7 / 10)"
  "fl (7 / 10) \<le> fl (85 / 100)"
  "fl (85 / 100) \<le> 1"
  by code_simp+

lemma chapter_quotient:
  fixes idx total_items :: nat
  defines "q \<equiv> fl (of_nat idx / of_nat (max total_items 1))"
  shows "0 \<le> q" and "idx \<le> max total_items 1 \<Longrightarrow> q \<le> 1"
proof -
  have n: "0 < (of_nat (max total_items 1) :: rat)" by simp
  have nonneg: "0 \<le> (of_nat idx :: rat) / of_nat (max total_items 1)" by simp
  show "0 \<le> q" unfolding q_def using nonneg by (rule fl_nonneg)
  assume "idx \<le> max total_items 1"
  then have "(of_nat idx :: rat) \<le> of_nat (max total_items 1)" by (simp only: of_nat_le_iff)
  then have "(of_nat idx :: rat) / of_nat (max total_items 1) \<le> 1" using n by (simp add: divide_le_eq)
  with nonneg have "fl (of_nat idx / of_nat (max total_items 1)) \<le> fl 1" by (rule fl_mono)
  then show "q \<le> 1" by (simp add: q_def fl_constants)
qed

lemma chapter_fraction_mono:
  assumes "i \<le> j"
  shows "chapter_fraction i n \<le> chapter_fraction j n"
proof -
  define qi where "qi = fl (of_nat i / of_nat (max n 1))"
  define qj where "qj = fl (of_nat j / of_nat (max n 1))"
  have pos: "0 < (of_nat (max n 1) :: rat)" by simp
  have "(of_nat i :: rat) \<le> of_nat j" using assms by simp
  then have "(of_nat i :: rat) / of_nat (max n 1) \<le> of_nat j / of_nat (max n 1)"
    using pos by (simp add: divide_right_mono)
  moreover have "0 \<le> (of_nat i :: rat) / of_nat (max n 1)" by simp
  ultimately have q: "qi \<le> qj" unfolding qi_def qj_def by (intro fl_mono)
  have qi: "0 \<le> qi" unfolding qi_def by (rule chapter_quotient(1))
  from q qi have "fl (1 / 2 * qi) \<le> fl (1 / 2 * qj)" by (intro fl_mono) simp_all
  moreover have "0 \<le> fl (1 / 2 * qi)" using qi by (intro fl_nonneg) simp
  moreover have "0 \<le> fl (2 / 10)" by (intro fl_nonneg) simp
  ultimately have "fl (fl (2 / 10) + fl (1 / 2 * qi)) \<le> fl (fl (2 / 10) + fl (1 / 2 * qj))"
    by (intro fl_mono) simp_all
  then show ?thesis by (simp add: chapter_fraction_def fadd_def fmul_def qi_def qj_def)
qed

lemma chapter_fraction_lower: "fl (2 / 10) \<le> chapter_fraction i n"
proof -
  define q where "q = fl (of_nat i / of_nat (max n 1))"
  have q: "0 \<le> q" unfolding q_def by (rule chapter_quotient(1))
  have h: "0 \<le> fl (1 / 2 * q)" using q by (intro fl_nonneg) simp
  have z: "0 \<le> fl (2 / 10)" by (intro fl_nonneg) simp
  have "fl (fl (2 / 10)) \<le> fl (fl (2 / 10) + fl (1 / 2 * q))"
    using z h by (intro fl_mono) simp_all
  then show ?thesis
    unfolding chapter_fraction_def fadd_def fmul_def q_def fl_constants(1) .
qed

lemma chapter_fraction_upper:
  assumes "i \<le> max n 1"
  shows "chapter_fraction i n \<le> fl (7 / 10)"
proof -
  define q where "q = fl (of_nat i / of_nat (max n 1))"
  have q0: "0 \<le> q" unfolding q_def by (rule chapter_quotient(1))
  have q1: "q \<le> 1" unfolding q_def using assms by (rule chapter_quotient(2))
  have "fl (1 / 2 * q) \<le> fl (1 / 2)" using q0 q1 by (intro fl_mono) simp_all
  then have h: "fl (1 / 2 * q) \<le> 1 / 2" by (simp add: fl_constants)
  have h0: "0 \<le> fl (1 / 2 * q)" using q0 by (intro fl_nonneg) simp
  have z: "0 \<le> fl (2 / 10)" by (intro fl_nonneg) simp
  have "fl (fl (2 / 10) + fl (1 / 2 * q)) \<le> fl (fl (2 / 10) + 1 / 2)"
    using z h h0 by (intro fl_mono) simp_all
  then show ?thesis
    unfolding chapter_fraction_def fadd_def fmul_def q_def fl_constants(2) .
qed

lemma chapter_progress_eq: "chapter_progress idx total_items = Inr (chapter_fraction idx total_items)"
  by (simp add: chapter_progress_def chapter_fraction_def py_truediv_def)

lemma chapter_block_no_zero_division: "chapter_block W images it \<noteq> Inl ZeroDivisionError"
  by (auto simp: chapter_block_def process_html_content_def split: sum.splits list.splits)

lemma convert_chapters_Cons:
  "convert_chapters W cb images total_items idx (it # rest) sent html_parts =
     (if get_type it = ITEM_DOCUMENT then
        (let sent' = report_progress cb (chapter_fraction idx total_items)
                       (chapter_message idx total_items) sent
         in case chapter_block W images it of
              Inl e \<Rightarrow> (sent', Inl e)
            | Inr block \<Rightarrow>
                convert_chapters W cb images total_items (idx + 1) rest sent' (html_parts @ [block]))
      else convert_chapters W cb images total_items (idx + 1) rest sent html_parts)"
  by (simp add: chapter_progress_eq)

lemma convert_chapters_no_zero_division:
  "snd (convert_chapters W cb images total_items idx its sent html_parts) \<noteq> Inl ZeroDivisionError"
proof (induction its arbitrary: idx sent html_parts)
  case Nil
  show ?case by simp
next
  case (Cons it rest)
  show ?case
    unfolding convert_chapters_Cons
    using Cons.IH chapter_block_no_zero_division [of W images it]
    by (auto simp: Let_def split: sum.splits)
qed

lemma convert_chapters_parts:
  "snd (convert_chapters W cb images total_items idx its sent html_parts) = Inr parts
   \<Longrightarrow> \<exists>blocks. parts = html_parts @ blocks"
proof (induction its arbitrary: idx sent html_parts)
  case Nil
  then show ?case by simp
next
  case (Cons it rest)
  from Cons.prems show ?case
    unfolding convert_chapters_Cons
    by (auto simp: Let_def split: sum.splits if_splits dest!: Cons.IH)
qed

lemma bounded_sorted_report:
  assumes "bounded_sorted u sent" and "u \<le> p" and "0 \<le> p"
  shows "bounded_sorted p (report_progress cb p m sent)"
  using assms
  by (auto simp: bounded_sorted_def report_progress_def sorted_append intro: order_trans)

lemma bounded_sorted_mono:
  "bounded_sorted u sent \<Longrightarrow> u \<le> v \<Longrightarrow> bounded_sorted v sent"
  by (auto simp: bounded_sorted_def intro: order_trans)

lemma chapter_fraction_nonneg: "0 \<le> chapter_fraction i n"
  using chapter_fraction_lower [of i n] fl_nonneg [of "2 / 10"] by simp

lemma convert_chapters_sorted:
  "bounded_sorted (chapter_fraction idx total_items) sent
   \<Longrightarrow> idx + length its \<le> max total_items 1
   \<Longrightarrow> bounded_sorted (fl (7 / 10))
         (fst (convert_chapters W cb images total_items idx its sent html_parts))"
proof (induction its arbitrary: idx sent html_parts)
  case Nil
  then have "idx \<le> max total_items 1" by simp
  then have "chapter_fraction idx total_items \<le> fl (7 / 10)" by (rule chapter_fraction_upper)
  with Nil.prems(1) show ?case by (simp add: bounded_sorted_mono)
next
  case (Cons it rest)
  have step: "chapter_fraction idx total_items \<le> chapter_fraction (idx + 1) total_items"
    by (rule chapter_fraction_mono) simp
  have next_ok: "idx + 1 + length rest \<le> max total_items 1" using Cons.prems(2) by simp
  have up: "chapter_fraction idx total_items \<le> fl (7 / 10)"
    using Cons.prems(2) by (intro chapter_fraction_upper) simp
  show ?case
  proof (cases "get_type it = ITEM_DOCUMENT")
    case False
    from Cons.prems(1) step have "bounded_sorted (chapter_fraction (idx + 1) total_items) sent"
      by (rule bounded_sorted_mono)
    from Cons.IH [OF this next_ok] False show ?thesis
      unfolding convert_chapters_Cons by simp
  next
    case True
    define sent' where "sent' = report_progress cb (chapter_fraction idx total_items)
      (chapter_message idx total_items) sent"
    have s: "bounded_sorted (chapter_fraction idx total_items) sent'"
      unfolding sent'_def
      by (rule bounded_sorted_report [OF Cons.prems(1) order_refl chapter_fraction_nonneg])
    show ?thesis
    proof (cases "chapter_block W images it")
      case (Inl e)
      from s up have "bounded_sorted (fl (7 / 10)) sent'" by (rule bounded_sorted_mono)
      with True Inl show ?thesis
        unfolding convert_chapters_Cons by (simp add: sent'_def Let_def)
    next
      case (Inr block)
      from s step have "bounded_sorted (chapter_fraction (idx + 1) total_items) sent'"
        by (rule bounded_sorted_mono)
      from Cons.IH [OF this next_ok] True Inr show ?thesis
        unfolding convert_chapters_Cons by (simp add: sent'_def Let_def)
    qed
  qed
qed


lemma bounded_sorted_Nil: "bounded_sorted u []"
  by (simp add: bounded_sorted_def)

lemma render_stage_outcome:
  "outcome (render_stage W cb title html_parts dest sent) = Inr True
   \<or> (\<exists>msg. outcome (render_stage W cb title html_parts dest sent) = Inl (Raised msg))"
  by (simp add: render_stage_def Let_def split: option.splits)

lemma render_stage_sorted:
  assumes "bounded_sorted (fl (7 / 10)) sent"
  shows "bounded_sorted 1 (reports (render_stage W cb title html_parts dest sent))"
proof -
  define s1 where "s1 = report_progress cb (fl (7 / 10)) ''Generating PDF...'' sent"
  define s2 where "s2 = report_progress cb (fl (85 / 100)) ''Writing PDF file...'' s1"
  define s3 where "s3 = report_progress cb 1 ''Complete!'' s2"
  have z: "0 \<le> fl (7 / 10)" "0 \<le> fl (85 / 100)" by (rule fl_nonneg, simp)+
  have b1: "bounded_sorted (fl (7 / 10)) s1"
    unfolding s1_def by (rule bounded_sorted_report [OF assms order_refl z(1)])
  have b2: "bounded_sorted (fl (85 / 100)) s2"
    unfolding s2_def by (rule bounded_sorted_report [OF b1 fl_constants(8) z(2)])
  have b3: "bounded_sorted 1 s3"
    unfolding s3_def by (rule bounded_sorted_report [OF b2 fl_constants(9)]) simp
  have c1: "bounded_sorted 1 s1"
    using b1 fl_constants(8,9) by (intro bounded_sorted_mono [OF b1]) linarith
  have c2: "bounded_sorted 1 s2" using b2 fl_constants(9) by (rule bounded_sorted_mono)
  have "reports (render_stage W cb title html_parts dest sent) \<in> {s1, s2, s3}"
    by (simp add: render_stage_def Let_def s1_def s2_def s3_def split: option.splits)
  with c1 c2 b3 show ?thesis by auto
qed

lemma render_stage_success:
  assumes "outcome (render_stage W cb title html_parts dest sent) = Inr v"
  shows "reports (render_stage W cb title html_parts dest sent) =
           report_progress cb 1 ''Complete!''
             (report_progress cb (fl (85 / 100)) ''Writing PDF file...''
               (report_progress cb (fl (7 / 10)) ''Generating PDF...'' sent))"
    and "written (render_stage W cb title html_parts dest sent) =
           Some (dest, full_html title html_parts)"
  using assms by (simp_all add: render_stage_def Let_def split: option.splits)

lemma try_convert_outcome:
  "outcome (try_convert W cb epub dest) = Inr True
   \<or> (\<exists>msg. outcome (try_convert W cb epub dest) = Inl (Raised msg))"
proof (cases "read_epub W epub")
  case (Inl msg)
  then show ?thesis by (simp add: try_convert_def Let_def)
next
  case (Inr b)
  define title where "title = book_title b epub"
  define its where "its = spine_items b"
  define c where "c = convert_chapters W cb (extract_images (pil W) b) (length its) 0 its
    (report_progress cb (fl (2 / 10)) ''Processing chapters...''
      (report_progress cb (fl (1 / 10)) ''Extracting images...''
        (report_progress cb 0 ''Opening EPUB file...'' [])))
    [title_page title (book_author b)]"
  have t: "try_convert W cb epub dest =
      (case c of
         (sent3, Inl e) \<Rightarrow> \<lparr>reports = sent3, outcome = Inl e, written = None\<rparr>
       | (sent3, Inr parts) \<Rightarrow> render_stage W cb title parts dest sent3)"
    using Inr by (simp add: try_convert_def Let_def c_def title_def its_def)
  show ?thesis
  proof (cases "snd c")
    case (Inl e)
    from convert_chapters_no_zero_division [of W cb _ "length its" 0 its]
    have "snd c \<noteq> Inl ZeroDivisionError" unfolding c_def .
    with Inl obtain msg where "e = Raised msg" by (cases e) auto
    with Inl show ?thesis unfolding t by (cases c) simp
  next
    case (Inr parts)
    then show ?thesis unfolding t using render_stage_outcome [of W cb title parts dest "fst c"]
      by (cases c) simp
  qed
qed

lemma try_convert_sorted:
  "bounded_sorted 1 (reports (try_convert W cb epub dest))"
proof -
  define s0 where "s0 = report_progress cb 0 ''Opening EPUB file...'' []"
  have b0: "bounded_sorted 0 s0"
    unfolding s0_def by (rule bounded_sorted_report [OF bounded_sorted_Nil order_refl order_refl])
  show ?thesis
  proof (cases "read_epub W epub")
    case (Inl msg)
    have "bounded_sorted 1 s0" using b0 by (rule bounded_sorted_mono) simp
    with Inl show ?thesis by (simp add: try_convert_def Let_def s0_def)
  next
    case (Inr b)
    define title where "title = book_title b epub"
    define its where "its = spine_items b"
    define s1 where "s1 = report_progress cb (fl (1 / 10)) ''Extracting images...'' s0"
    define s2 where "s2 = report_progress cb (fl (2 / 10)) ''Processing chapters...'' s1"
    define c where "c = convert_chapters W cb (extract_images (pil W) b) (length its) 0 its s2
      [title_page title (book_author b)]"
    have t: "try_convert W cb epub dest =
        (case c of
           (sent3, Inl e) \<Rightarrow> \<lparr>reports = sent3, outcome = Inl e, written = None\<rparr>
         | (sent3, Inr parts) \<Rightarrow> render_stage W cb title parts dest sent3)"
      using Inr by (simp add: try_convert_def Let_def c_def title_def its_def s0_def s1_def s2_def)
    have b1: "bounded_sorted (fl (1 / 10)) s1"
      unfolding s1_def by (rule bounded_sorted_report [OF b0 fl_constants(5) fl_constants(5)])
    have z2: "0 \<le> fl (2 / 10)" by (rule fl_nonneg) simp
    have b2: "bounded_sorted (fl (2 / 10)) s2"
      unfolding s2_def by (rule bounded_sorted_report [OF b1 fl_constants(6) z2])
    have b2': "bounded_sorted (chapter_fraction 0 (length its)) s2"
      using b2 chapter_fraction_lower by (rule bounded_sorted_mono)
    have "0 + length its \<le> max (length its) 1" by simp
    with b2' have b3: "bounded_sorted (fl (7 / 10)) (fst c)"
      unfolding c_def by (rule convert_chapters_sorted)
    show ?thesis
    proof (cases "snd c")
      case (Inl e)
      have "bounded_sorted 1 (fst c)"
        using fl_constants(8,9) by (intro bounded_sorted_mono [OF b3]) linarith
      with Inl show ?thesis unfolding t by (cases c) simp
    next
      case (Inr parts)
      with render_stage_sorted [OF b3, of W cb title parts dest]
      show ?thesis unfolding t by (cases c) simp
    qed
  qed
qed

lemma try_convert_success:
  assumes "outcome (try_convert W cb epub dest) = Inr v"
  shows "\<exists>sent. reports (try_convert W cb epub dest) = report_progress cb 1 ''Complete!'' sent"
    and "\<exists>b blocks. read_epub W epub = Inr b
           \<and> written (try_convert W cb epub dest) =
               Some (dest,
                     full_html (book_title b epub)
                       (title_page (book_title b epub) (book_author b) # blocks))"
proof -
  from assms obtain b where b: "read_epub W epub = Inr b"
    by (cases "read_epub W epub") (simp_all add: try_convert_def Let_def)
  define title where "title = book_title b epub"
  define its where "its = spine_items b"
  define c where "c = convert_chapters W cb (extract_images (pil W) b) (length its) 0 its
    (report_progress cb (fl (2 / 10)) ''Processing chapters...''
      (report_progress cb (fl (1 / 10)) ''Extracting images...''
        (report_progress cb 0 ''Opening EPUB file...'' [])))
    [title_page title (book_author b)]"
  have t: "try_convert W cb epub dest =
      (case c of
         (sent3, Inl e) \<Rightarrow> \<lparr>reports = sent3, outcome = Inl e, written = None\<rparr>
       | (sent3, Inr parts) \<Rightarrow> render_stage W cb title parts dest sent3)"
    using b by (simp add: try_convert_def Let_def c_def title_def its_def)
  from assms obtain parts where p: "snd c = Inr parts"
    unfolding t by (cases c; cases "snd c") simp_all
  then have r: "try_convert W cb epub dest = render_stage W cb title parts dest (fst c)"
    unfolding t by (cases c) simp
  from p obtain blocks where bl: "parts = [title_page title (book_author b)] @ blocks"
    unfolding c_def using convert_chapters_parts by blast
  note s = render_stage_success [OF assms [unfolded r]]
  show "\<exists>sent. reports (try_convert W cb epub dest) = report_progress cb 1 ''Complete!'' sent"
    unfolding r s(1) by blast
  have "written (try_convert W cb epub dest) =
      Some (dest, full_html title (title_page title (book_author b) # blocks))"
    using s(2) unfolding r bl by simp
  with b show "\<exists>b blocks. read_epub W epub = Inr b
           \<and> written (try_convert W cb epub dest) =
               Some (dest,
                     full_html (book_title b epub)
                       (title_page (book_title b epub) (book_author b) # blocks))"
    unfolding title_def by blast
qed

lemma convert_success:
  "outcome (try_convert W cb epub dest) = Inr v
   \<Longrightarrow> convert W cb epub dest = try_convert W cb epub dest"
  by (simp add: convert_def Let_def)

lemma convert_failure:
  "outcome (try_convert W cb epub dest) = Inl e
   \<Longrightarrow> convert W cb epub dest =
       (try_convert W cb epub dest)
         \<lparr>reports := report_progress cb 0 (''Error: '' @ str_exn e)
                       (reports (try_convert W cb epub dest))\<rparr>"
  by (simp add: convert_def Let_def)

lemma convert_outcome:
  "outcome (convert W cb epub dest) = outcome (try_convert W cb epub dest)"
  by (simp add: convert_def Let_def split: sum.splits)


text \<open>
  C1, as the code has it. With a progress callback, the fractions reported by a
  conversion that returns do not decrease, and the last one is 1.0. A conversion that
  raises reports 0.0 last, with the error message; the fractions reported before that
  last report do not decrease. (The whole sequence of a failing conversion decreases at
  its last report as soon as a fraction above 0.0 was reported.) Every fraction lies
  between 0.0 and 1.0.
\<close>

theorem progress_sequence:
  "(outcome (convert W True epub dest) = Inr v \<longrightarrow>
      sorted (map fst (reports (convert W True epub dest)))
      \<and> reports (convert W True epub dest) \<noteq> []
      \<and> last (reports (convert W True epub dest)) = (1, ''Complete!''))
   \<and> (outcome (convert W True epub dest) = Inl e \<longrightarrow>
      reports (convert W True epub dest) \<noteq> []
      \<and> last (reports (convert W True epub dest)) = (0, ''Error: '' @ str_exn e)
      \<and> sorted (map fst (butlast (reports (convert W True epub dest)))))
   \<and> (\<forall>x \<in> set (reports (convert W True epub dest)). 0 \<le> fst x \<and> fst x \<le> 1)"
proof -
  define t where "t = try_convert W True epub dest"
  have b: "bounded_sorted 1 (reports t)" unfolding t_def by (rule try_convert_sorted)
  show ?thesis
  proof (cases "outcome t")
    case (Inr w)
    then have c: "convert W True epub dest = t" unfolding t_def by (rule convert_success)
    from try_convert_success(1) [OF Inr [unfolded t_def]]
    obtain sent where "reports t = sent @ [(1, ''Complete!'')]"
      unfolding t_def report_progress_def by auto
    with b Inr show ?thesis unfolding c by (auto simp: bounded_sorted_def)
  next
    case (Inl e')
    then have c: "convert W True epub dest =
        t\<lparr>reports := report_progress True 0 (''Error: '' @ str_exn e') (reports t)\<rparr>"
      unfolding t_def by (rule convert_failure)
    have r: "reports (convert W True epub dest) = reports t @ [(0, ''Error: '' @ str_exn e')]"
      unfolding c by (simp add: report_progress_def)
    have o: "outcome (convert W True epub dest) = Inl e'"
      unfolding c using Inl by simp
    from b show ?thesis unfolding o r by (auto simp: bounded_sorted_def)
  qed
qed

theorem progress_sequence_witness:
  "outcome (convert demo_world True ''/books/demo.epub'' ''/tmp/demo.pdf'') = Inr True
   \<and> sorted (map fst (reports (convert demo_world True ''/books/demo.epub'' ''/tmp/demo.pdf'')))
   \<and> last (reports (convert demo_world True ''/books/demo.epub'' ''/tmp/demo.pdf''))
       = (1, ''Complete!'')
   \<and> outcome (convert demo_world True ''/books/demo.epub'' ''/readonly/demo.pdf'')
       = Inl (Raised ''Permission denied'')
   \<and> last (reports (convert demo_world True ''/books/demo.epub'' ''/readonly/demo.pdf''))
       = (0, ''Error: Permission denied'')
   \<and> sorted (map fst (butlast
         (reports (convert demo_world True ''/books/demo.epub'' ''/readonly/demo.pdf''))))"
proof -
  have a: "outcome (convert demo_world True ''/books/demo.epub'' ''/tmp/demo.pdf'') = Inr True"
    by code_simp
  have b: "outcome (convert demo_world True ''/books/demo.epub'' ''/readonly/demo.pdf'')
      = Inl (Raised ''Permission denied'')"
    by code_simp
  from progress_sequence [of demo_world "''/books/demo.epub''" "''/tmp/demo.pdf''" True] a
  have s: "sorted (map fst (reports (convert demo_world True ''/books/demo.epub'' ''/tmp/demo.pdf'')))
      \<and> last (reports (convert demo_world True ''/books/demo.epub'' ''/tmp/demo.pdf''))
          = (1, ''Complete!'')"
    by blast
  from progress_sequence
    [of demo_world "''/books/demo.epub''" "''/readonly/demo.pdf''" _ "Raised ''Permission denied''"] b
  have f: "last (reports (convert demo_world True ''/books/demo.epub'' ''/readonly/demo.pdf''))
        = (0, ''Error: '' @ str_exn (Raised ''Permission denied''))
      \<and> sorted (map fst (butlast
          (reports (convert demo_world True ''/books/demo.epub'' ''/readonly/demo.pdf''))))"
    by blast
  from a b s f show ?thesis by simp
qed

theorem progress_sequence_counterexample:
  "outcome (convert demo_world True ''/books/demo.epub'' ''/readonly/demo.pdf'')
       = Inl (Raised ''Permission denied'')
   \<and> \<not> sorted (map fst (reports (convert demo_world True ''/books/demo.epub'' ''/readonly/demo.pdf'')))"
  by code_simp

text \<open>
  C9. \<open>convert\<close> never returns \<open>False\<close>. It returns \<open>True\<close> with the reports of the \<open>try\<close>
  body, or it raises the exception that left the \<open>try\<close> body, after one more report of
  0.0 with the message of that exception; \<open>convert_epub_to_pdf\<close> is \<open>convert\<close>.
\<close>

theorem convert_never_returns_false:
  "outcome (convert W cb epub dest) \<noteq> Inr False
   \<and> (outcome (convert W cb epub dest) = Inr True
        \<and> reports (convert W cb epub dest) = reports (try_convert W cb epub dest)
      \<or> (\<exists>msg. outcome (try_convert W cb epub dest) = Inl (Raised msg)
            \<and> outcome (convert W cb epub dest) = Inl (Raised msg)
            \<and> reports (convert W cb epub dest) =
                report_progress cb 0 (''Error: '' @ msg) (reports (try_convert W cb epub dest))))
   \<and> convert_epub_to_pdf W epub dest cb = convert W cb epub dest"
proof -
  from try_convert_outcome [of W cb epub dest]
  have "outcome (convert W cb epub dest) = Inr True
        \<and> reports (convert W cb epub dest) = reports (try_convert W cb epub dest)
      \<or> (\<exists>msg. outcome (try_convert W cb epub dest) = Inl (Raised msg)
            \<and> outcome (convert W cb epub dest) = Inl (Raised msg)
            \<and> reports (convert W cb epub dest) =
                report_progress cb 0 (''Error: '' @ msg) (reports (try_convert W cb epub dest)))"
  proof
    assume t: "outcome (try_convert W cb epub dest) = Inr True"
    then have "convert W cb epub dest = try_convert W cb epub dest" by (rule convert_success)
    with t show ?thesis by simp
  next
    assume "\<exists>msg. outcome (try_convert W cb epub dest) = Inl (Raised msg)"
    then obtain msg where t: "outcome (try_convert W cb epub dest) = Inl (Raised msg)" ..
    from convert_failure [OF t] t show ?thesis by simp
  qed
  then show ?thesis by (auto simp: convert_epub_to_pdf_def)
qed

text \<open>
  C8. The divisor of the chapter fraction is \<open>max(total_items, 1)\<close>, so no conversion
  raises ZeroDivisionError. For a book with an empty spine that the reader, the renderer
  and the file system accept, \<open>convert\<close> returns \<open>True\<close>, writes the document that holds
  the title page alone, and reports 0.0, 0.1, 0.2, 0.7, 0.85 and 1.0.
\<close>

theorem zero_chapters_complete:
  "outcome (convert W cb epub dest) \<noteq> Inl ZeroDivisionError
   \<and> (read_epub W epub = Inr b \<and> spine b = []
        \<and> weasy_html W (full_html (book_title b epub)
                          [title_page (book_title b epub) (book_author b)]) = None
        \<and> weasy_css W (base_css W) = None
        \<and> write_pdf W (full_html (book_title b epub)
                         [title_page (book_title b epub) (book_author b)]) dest = None
      \<longrightarrow> convert W cb epub dest =
            \<lparr>reports =
               (if cb then
                  [(0, ''Opening EPUB file...''), (fl (1 / 10), ''Extracting images...''),
                   (fl (2 / 10), ''Processing chapters...''), (fl (7 / 10), ''Generating PDF...''),
                   (fl (85 / 100), ''Writing PDF file...''), (1, ''Complete!'')]
                else []),
             outcome = Inr True,
             written = Some (dest, full_html (book_title b epub)
                                     [title_page (book_title b epub) (book_author b)])\<rparr>)"
proof -
  have z: "outcome (convert W cb epub dest) \<noteq> Inl ZeroDivisionError"
    using try_convert_outcome [of W cb epub dest] unfolding convert_outcome by auto
  have "convert W cb epub dest =
            \<lparr>reports =
               (if cb then
                  [(0, ''Opening EPUB file...''), (fl (1 / 10), ''Extracting images...''),
                   (fl (2 / 10), ''Processing chapters...''), (fl (7 / 10), ''Generating PDF...''),
                   (fl (85 / 100), ''Writing PDF file...''), (1, ''Complete!'')]
                else []),
             outcome = Inr True,
             written = Some (dest, full_html (book_title b epub)
                                     [title_page (book_title b epub) (book_author b)])\<rparr>"
    if h: "read_epub W epub = Inr b" "spine b = []"
      "weasy_html W (full_html (book_title b epub)
         [title_page (book_title b epub) (book_author b)]) = None"
      "weasy_css W (base_css W) = None"
      "write_pdf W (full_html (book_title b epub)
         [title_page (book_title b epub) (book_author b)]) dest = None"
  proof -
    have s: "spine_items b = []" using h(2) by (simp add: spine_items_def)
    show ?thesis
      using h(1,3,4,5)
      by (simp add: convert_def try_convert_def render_stage_def s Let_def report_progress_def)
  qed
  with z show ?thesis by blast
qed

theorem zero_chapters_complete_witness:
  "read_epub demo_world ''/books/empty.epub'' = Inr empty_book \<and> spine empty_book = []
   \<and> outcome (convert demo_world True ''/books/empty.epub'' ''/tmp/empty.pdf'') = Inr True
   \<and> map fst (reports (convert demo_world True ''/books/empty.epub'' ''/tmp/empty.pdf''))
       = [0, fl (1 / 10), fl (2 / 10), fl (7 / 10), fl (85 / 100), 1]"
proof -
  have h: "read_epub demo_world ''/books/empty.epub'' = Inr empty_book" "spine empty_book = []"
    "weasy_html demo_world (full_html (book_title empty_book ''/books/empty.epub'')
       [title_page (book_title empty_book ''/books/empty.epub'') (book_author empty_book)]) = None"
    "weasy_css demo_world (base_css demo_world) = None"
    "write_pdf demo_world (full_html (book_title empty_book ''/books/empty.epub'')
       [title_page (book_title empty_book ''/books/empty.epub'') (book_author empty_book)])
       ''/tmp/empty.pdf'' = None"
    by (simp_all add: demo_world_def empty_book_def)
  from zero_chapters_complete [of demo_world True "''/books/empty.epub''" "''/tmp/empty.pdf''" empty_book] h
  have "convert demo_world True ''/books/empty.epub'' ''/tmp/empty.pdf'' =
            \<lparr>reports =
               (if True then
                  [(0, ''Opening EPUB file...''), (fl (1 / 10), ''Extracting images...''),
                   (fl (2 / 10), ''Processing chapters...''), (fl (7 / 10), ''Generating PDF...''),
                   (fl (85 / 100), ''Writing PDF file...''), (1, ''Complete!'')]
                else []),
             outcome = Inr True,
             written = Some (''/tmp/empty.pdf'', full_html (book_title empty_book ''/books/empty.epub'')
               [title_page (book_title empty_book ''/books/empty.epub'') (book_author empty_book)])\<rparr>"
    by blast
  then show ?thesis using h(1,2) by simp
qed

text \<open>
  C10. The document a successful conversion renders carries the title
  \<open>title[0][0] if title else Path(epub_path).stem\<close> in its \<open>title\<close> element and in the heading
  of the title page, which is its first block. A book with no title entry gets the stem
  of the source path. A book with no creator entry gets the empty string as author, and
  the author line of the title page is then empty.
\<close>

theorem default_title_and_author:
  "(read_epub W epub = Inr b \<and> outcome (convert W cb epub dest) = Inr v \<longrightarrow>
      (\<exists>blocks. written (convert W cb epub dest) =
         Some (dest, full_html (book_title b epub)
                       (title_page (book_title b epub) (book_author b) # blocks))))
   \<and> (dc_title b = [] \<longrightarrow> book_title b epub = Some (path_stem epub))
   \<and> (dc_creator b = [] \<longrightarrow> book_author b = Some [] \<and> author_line (book_author b) = [])"
proof -
  have "\<exists>blocks. written (convert W cb epub dest) =
         Some (dest, full_html (book_title b epub)
                       (title_page (book_title b epub) (book_author b) # blocks))"
    if h: "read_epub W epub = Inr b" "outcome (convert W cb epub dest) = Inr v"
  proof -
    from h(2) have t: "outcome (try_convert W cb epub dest) = Inr v" unfolding convert_outcome .
    from try_convert_success(2) [OF t] h(1) convert_success [OF t] show ?thesis by auto
  qed
  then show ?thesis
    by (auto simp: book_title_def book_author_def author_line_def truthy_def)
qed

theorem default_title_and_author_witness:
  "read_epub demo_world ''/books/demo.epub'' = Inr demo_book
   \<and> outcome (convert demo_world True ''/books/demo.epub'' ''/tmp/demo.pdf'') = Inr True
   \<and> dc_title demo_book = [] \<and> dc_creator demo_book = []
   \<and> book_title demo_book ''/books/demo.epub'' = Some ''demo''
   \<and> book_author demo_book = Some [] \<and> author_line (book_author demo_book) = []
   \<and> (\<exists>blocks. written (convert demo_world True ''/books/demo.epub'' ''/tmp/demo.pdf'') =
         Some (''/tmp/demo.pdf'',
               full_html (Some ''demo'') (title_page (Some ''demo'') (Some []) # blocks)))"
proof -
  have r: "read_epub demo_world ''/books/demo.epub'' = Inr demo_book"
    by (simp add: demo_world_def)
  have o: "outcome (convert demo_world True ''/books/demo.epub'' ''/tmp/demo.pdf'') = Inr True"
    by code_simp
  have d: "dc_title demo_book = []" "dc_creator demo_book = []" by (simp_all add: demo_book_def)
  have p: "path_stem ''/books/demo.epub'' = ''demo''" by code_simp
  note t = default_title_and_author
    [of demo_world "''/books/demo.epub''" demo_book True "''/tmp/demo.pdf''" True]
  from t d have bt: "book_title demo_book ''/books/demo.epub'' = Some ''demo''"
    and ba: "book_author demo_book = Some []" "author_line (book_author demo_book) = []"
    unfolding p by blast+
  from t r o have "\<exists>blocks. written (convert demo_world True ''/books/demo.epub'' ''/tmp/demo.pdf'') =
         Some (''/tmp/demo.pdf'',
               full_html (book_title demo_book ''/books/demo.epub'')
                 (title_page (book_title demo_book ''/books/demo.epub'') (book_author demo_book) # blocks))"
    by blast
  then have "\<exists>blocks. written (convert demo_world True ''/books/demo.epub'' ''/tmp/demo.pdf'') =
         Some (''/tmp/demo.pdf'',
               full_html (Some ''demo'') (title_page (Some ''demo'') (Some []) # blocks))"
    unfolding bt ba(1) .
  with r o d bt ba show ?thesis by blast
qed

section \<open>Job Queue and Worker\<close>

lemma worker_process_statuses:
  "map update_status (worker_process W it) =
     replicate (Suc (length (reports (convert_epub_to_pdf W (epub_path it) (output_path it) True))))
       CONVERTING
     @ [case outcome (convert_epub_to_pdf W (epub_path it) (output_path it) True) of
          Inr v \<Rightarrow> COMPLETED | Inl e \<Rightarrow> FAILED]"
proof -
  have "map update_status (map (\<lambda>(p, m). (qid it, CONVERTING, p, m)) rs)
      = replicate (length rs) CONVERTING" for rs :: "report list"
    by (induction rs) (auto simp: update_status_def)
  then show ?thesis
    by (simp add: worker_process_def Let_def update_status_def split: sum.splits)
qed

lemma follows_converting:
  "fin = COMPLETED \<or> fin = FAILED \<Longrightarrow> follows CONVERTING (replicate n CONVERTING @ [fin])"
  by (induction n) auto

lemma worker_process_follows: "follows PENDING (map update_status (worker_process W it))"
proof -
  let ?r = "convert_epub_to_pdf W (epub_path it) (output_path it) True"
  have "follows CONVERTING (replicate (length (reports ?r)) CONVERTING
      @ [case outcome ?r of Inr v \<Rightarrow> COMPLETED | Inl e \<Rightarrow> FAILED])"
    by (rule follows_converting) (simp split: sum.splits)
  then show ?thesis unfolding worker_process_statuses by simp
qed

lemma worker_process_updates:
  assumes "u \<in> set (worker_process W it)"
  shows "update_id u = qid it"
    and "update_status u \<noteq> PENDING"
    and "update_status u = COMPLETED \<Longrightarrow> update_progress u = 1"
    and "update_status u = FAILED \<Longrightarrow> update_progress u = 0"
  using assms
  by (auto simp: worker_process_def Let_def update_id_def update_status_def update_progress_def
      split: sum.splits)

lemma worker_run_other_job:
  "j \<notin> qid ` set (queued q) \<Longrightarrow> filter (\<lambda>u. update_id u = j) (worker_run W q) = []"
proof (induction q rule: worker_run.induct)
  case (1 W)
  show ?case by simp
next
  case (2 W rest)
  show ?case by simp
next
  case (3 W it rest)
  from "3.prems" have a: "qid it \<noteq> j" and b: "j \<notin> qid ` set (queued rest)"
    by auto
  from a have "filter (\<lambda>u. update_id u = j) (worker_process W it) = []"
    by (auto simp: filter_empty_conv dest: worker_process_updates(1))
  with "3.IH" [OF b] show ?case by simp
qed

lemma worker_run_one_job:
  "distinct (map qid (queued q))
   \<Longrightarrow> filter (\<lambda>u. update_id u = j) (worker_run W q) = []
       \<or> (\<exists>it. Some it \<in> set q \<and> qid it = j
              \<and> filter (\<lambda>u. update_id u = j) (worker_run W q) = worker_process W it)"
proof (induction q rule: worker_run.induct)
  case (1 W)
  show ?case by simp
next
  case (2 W rest)
  show ?case by simp
next
  case (3 W it rest)
  from "3.prems" have d: "distinct (map qid (queued rest))"
    and n: "qid it \<notin> qid ` set (queued rest)"
    by auto
  show ?case
  proof (cases "qid it = j")
    case True
    then have "filter (\<lambda>u. update_id u = j) (worker_process W it) = worker_process W it"
      by (auto simp: filter_id_conv dest: worker_process_updates(1))
    moreover from n True have "filter (\<lambda>u. update_id u = j) (worker_run W rest) = []"
      by (intro worker_run_other_job) simp
    ultimately show ?thesis using True by auto
  next
    case False
    then have "filter (\<lambda>u. update_id u = j) (worker_process W it) = []"
      by (auto simp: filter_empty_conv dest: worker_process_updates(1))
    with "3.IH" [OF d] show ?thesis by auto
  qed
qed

lemma queued_append: "queued (q @ r) = queued q @ queued r"
  by (induction q rule: queued.induct) simp_all

lemma worker_run_Some: "worker_run W (map Some done) = concat (map (worker_process W) done)"
  by (induction "done") simp_all

lemma queued_Some: "queued (map Some done) = done"
  by (induction "done") simp_all

lemma add_files_effect:
  "\<exists>added. callbacks (add_files_to_queue st files) = callbacks st
     \<and> queued (task_queue (add_files_to_queue st files)) = queued (task_queue st) @ added
     \<and> (distinct (map (\<lambda>f. snd (snd f)) files) \<longrightarrow> distinct (map qid added))
     \<and> set (map qid added) \<subseteq> set (map (\<lambda>f. snd (snd f)) files)"
proof (induction files arbitrary: st)
  case Nil
  show ?case by simp
next
  case (Cons f files)
  obtain path ex uuid where f: "f = (path, ex, uuid)" by (cases f)
  show ?case
  proof (cases "ex \<and> output_path_for (output_directory st) path \<noteq> None")
    case False
    then consider "\<not> ex" | "ex" "output_path_for (output_directory st) path = None" by blast
    then show ?thesis
    proof cases
      case 1
      from Cons.IH [of st] obtain added where
        "callbacks (add_files_to_queue st files) = callbacks st"
        "queued (task_queue (add_files_to_queue st files)) = queued (task_queue st) @ added"
        "distinct (map (\<lambda>f. snd (snd f)) files) \<longrightarrow> distinct (map qid added)"
        "set (map qid added) \<subseteq> set (map (\<lambda>f. snd (snd f)) files)"
        by blast
      with 1 f show ?thesis by (intro exI [of _ added]) auto
    next
      case 2
      with f show ?thesis by (intro exI [of _ "[]"]) simp
    qed
  next
    case True
    then obtain out where out: "output_path_for (output_directory st) path = Some out" by auto
    define it where "it = \<lparr>qid = uuid, epub_path = path, output_path = out, status = PENDING,
      progress = 0, message = ''Waiting...'', error = None\<rparr>"
    define st' where "st' = st\<lparr>queue_items := dict_set uuid it (queue_items st),
      item_widgets := (if uuid \<in> set (item_widgets st) then item_widgets st
                       else item_widgets st @ [uuid]),
      task_queue := task_queue st @ [Some it]\<rparr>"
    have e: "add_files_to_queue st (f # files) = add_files_to_queue st' files"
      using True out by (simp add: f it_def st'_def Let_def)
    from Cons.IH [of st'] obtain added where a:
      "callbacks (add_files_to_queue st' files) = callbacks st'"
      "queued (task_queue (add_files_to_queue st' files)) = queued (task_queue st') @ added"
      "distinct (map (\<lambda>f. snd (snd f)) files) \<longrightarrow> distinct (map qid added)"
      "set (map qid added) \<subseteq> set (map (\<lambda>f. snd (snd f)) files)"
      by blast
    have q: "queued (task_queue st') = queued (task_queue st) @ [it]"
      by (simp add: st'_def queued_append)
    have c: "callbacks st' = callbacks st" by (simp add: st'_def)
    have i: "qid it = uuid" by (simp add: it_def)
    show ?thesis unfolding e
      using a q c i f by (intro exI [of _ "it # added"]) auto
  qed
qed

lemma job_inv_init: "distinct future \<Longrightarrow> job_inv W init_app future"
  unfolding job_inv_def init_app_def by (intro exI [of _ "[]"]) simp

lemma job_inv_step:
  assumes "job_inv W st (event_uuids e @ future)"
  shows "job_inv W (app_step W st e) future"
proof -
  from assms obtain done' where d: "callbacks st = concat (map (worker_process W) done')"
    and x: "distinct (map qid done' @ map qid (queued (task_queue st)) @ event_uuids e @ future)"
    unfolding job_inv_def by blast
  show ?thesis
  proof (cases e)
    case (AddFiles files)
    from add_files_effect [of st files] obtain added where a:
      "callbacks (add_files_to_queue st files) = callbacks st"
      "queued (task_queue (add_files_to_queue st files)) = queued (task_queue st) @ added"
      "distinct (map (\<lambda>f. snd (snd f)) files) \<longrightarrow> distinct (map qid added)"
      "set (map qid added) \<subseteq> set (map (\<lambda>f. snd (snd f)) files)"
      by blast
    from x AddFiles a(3,4)
    have "distinct (map qid done' @ map qid (queued (task_queue st) @ added) @ future)"
      by (auto simp: subset_iff)
    with d a(1,2) AddFiles show ?thesis
      unfolding job_inv_def by (intro exI [of _ done']) simp
  next
    case (RemoveItem i)
    with d x show ?thesis
      unfolding job_inv_def by (intro exI [of _ done']) (simp add: remove_item_def)
  next
    case (SelectOutputDir dir)
    with d x show ?thesis
      unfolding job_inv_def by (intro exI [of _ done']) simp
  next
    case MainLoop
    with d x show ?thesis
      unfolding job_inv_def
      by (intro exI [of _ done']) (simp add: update_item_def split: list.splits prod.splits option.splits)
  next
    case CloseWindow
    with d x show ?thesis
      unfolding job_inv_def by (intro exI [of _ done']) (simp add: queued_append)
  next
    case WorkerLoop
    show ?thesis
    proof (cases "alive st \<and> running st")
      case False
      with WorkerLoop d x show ?thesis
        unfolding job_inv_def by (intro exI [of _ done']) (auto simp: worker_iteration_def)
    next
      case True
      show ?thesis
      proof (cases "task_queue st")
        case Nil
        with True WorkerLoop d x show ?thesis
          unfolding job_inv_def by (intro exI [of _ done']) (simp add: worker_iteration_def)
      next
        case (Cons entry rest)
        show ?thesis
        proof (cases entry)
          case None
          with Cons True WorkerLoop d x show ?thesis
            unfolding job_inv_def by (intro exI [of _ done']) (simp add: worker_iteration_def)
        next
          case (Some it)
          with Cons True WorkerLoop d x show ?thesis
            unfolding job_inv_def
            by (intro exI [of _ "done' @ [it]"]) (auto simp: worker_iteration_def Let_def)
        qed
      qed
    qed
  qed
qed

lemma job_inv_run:
  "job_inv W st (concat (map event_uuids es) @ future) \<Longrightarrow> job_inv W (app_run W st es) future"
proof (induction es arbitrary: st)
  case Nil
  then show ?case by simp
next
  case (Cons e es)
  from Cons.prems have "job_inv W st (event_uuids e @ concat (map event_uuids es) @ future)"
    by simp
  then have "job_inv W (app_step W st e) (concat (map event_uuids es) @ future)"
    by (rule job_inv_step)
  then show ?case by (simp add: Cons.IH)
qed


lemma app_lifecycle:
  assumes "distinct (concat (map event_uuids es))"
  shows "follows PENDING
    (map update_status (filter (\<lambda>u. update_id u = j) (callbacks (app_run W init_app es))))"
proof -
  from assms have "job_inv W init_app (concat (map event_uuids es) @ [])"
    by (intro job_inv_init) simp
  then have "job_inv W (app_run W init_app es) []" by (rule job_inv_run)
  then obtain done' where c: "callbacks (app_run W init_app es) = worker_run W (map Some done')"
    and d: "distinct (map qid (queued (map Some done')))"
    unfolding job_inv_def by (auto simp: worker_run_Some queued_Some)
  from worker_run_one_job [OF d, of j W] worker_process_follows show ?thesis
    unfolding c by auto
qed

text \<open>
  C5. For every item the worker dequeues, the statuses it hands to the observer are
  \<open>CONVERTING\<close> one or more times and then one terminal status, \<open>COMPLETED\<close> or \<open>FAILED\<close>:
  from \<open>PENDING\<close> the sequence follows the transitions
  \<open>PENDING \<rightarrow> CONVERTING \<rightarrow> CONVERTING \<rightarrow> {COMPLETED, FAILED}\<close>, and no transition leaves a
  terminal status. Every update carries the id of the item, none is \<open>PENDING\<close>,
  \<open>COMPLETED\<close> comes with the fraction 1.0 and \<open>FAILED\<close> with 0.0. Over a whole run of the
  worker on a queue of items with distinct ids, the updates of each job follow the
  lifecycle; so do the observer calls of the application after any sequence of events
  (files added, items removed, passes of the main loop and of the worker's loop, the
  window closed) in which the ids drawn by \<open>uuid4\<close> are pairwise distinct.
\<close>

theorem worker_lifecycle:
  "follows PENDING (map update_status (worker_process W it))
   \<and> (\<exists>n fin. map update_status (worker_process W it) = replicate (Suc n) CONVERTING @ [fin]
         \<and> (fin = COMPLETED \<or> fin = FAILED))
   \<and> (\<forall>u \<in> set (worker_process W it).
         update_id u = qid it \<and> update_status u \<noteq> PENDING
         \<and> (update_status u = COMPLETED \<longrightarrow> update_progress u = 1)
         \<and> (update_status u = FAILED \<longrightarrow> update_progress u = 0))
   \<and> (distinct (map qid (queued q)) \<longrightarrow>
        (\<forall>j. follows PENDING (map update_status (filter (\<lambda>u. update_id u = j) (worker_run W q)))))
   \<and> (distinct (concat (map event_uuids es)) \<longrightarrow>
        (\<forall>j. follows PENDING
           (map update_status (filter (\<lambda>u. update_id u = j) (callbacks (app_run W init_app es))))))"
proof -
  have a: "follows PENDING (map update_status (worker_process W it))"
    by (rule worker_process_follows)
  have b: "\<exists>n fin. map update_status (worker_process W it) = replicate (Suc n) CONVERTING @ [fin]
         \<and> (fin = COMPLETED \<or> fin = FAILED)"
    unfolding worker_process_statuses by (intro exI conjI, rule refl) (simp split: sum.splits)
  have c: "\<forall>u \<in> set (worker_process W it).
         update_id u = qid it \<and> update_status u \<noteq> PENDING
         \<and> (update_status u = COMPLETED \<longrightarrow> update_progress u = 1)
         \<and> (update_status u = FAILED \<longrightarrow> update_progress u = 0)"
    using worker_process_updates [of _ W it] by blast
  have d: "follows PENDING (map update_status (filter (\<lambda>u. update_id u = j) (worker_run W q)))"
    if "distinct (map qid (queued q))" for j
    using worker_run_one_job [OF that, of j W] worker_process_follows by auto
  have e: "follows PENDING
      (map update_status (filter (\<lambda>u. update_id u = j) (callbacks (app_run W init_app es))))"
    if "distinct (concat (map event_uuids es))" for j
    using that by (rule app_lifecycle)
  from a b c d e show ?thesis by blast
qed

theorem worker_lifecycle_witness:
  "distinct (map qid (queued
      [Some (job ''job-1'' ''/books/demo.epub'' ''/books/demo.pdf''),
       Some (job ''job-2'' ''/books/broken.epub'' ''/books/broken.pdf''), None]))
   \<and> map update_status (filter (\<lambda>u. update_id u = ''job-2'')
        (worker_run demo_world
          [Some (job ''job-1'' ''/books/demo.epub'' ''/books/demo.pdf''),
           Some (job ''job-2'' ''/books/broken.epub'' ''/books/broken.pdf''), None]))
       = [CONVERTING, CONVERTING, CONVERTING, FAILED]
   \<and> follows PENDING [CONVERTING, CONVERTING, CONVERTING, FAILED]
   \<and> (''job-2'', FAILED, 0, ''Error: File is not a zip file'')
       \<in> set (worker_process demo_world (job ''job-2'' ''/books/broken.epub'' ''/books/broken.pdf''))
   \<and> update_progress (''job-2'', FAILED, 0, ''Error: File is not a zip file'') = 0
   \<and> distinct (concat (map event_uuids
        [AddFiles [(''/books/demo.epub'', True, ''job-1''), (''/books/broken.epub'', True, ''job-2'')],
         WorkerLoop, RemoveItem ''job-2'', WorkerLoop, CloseWindow, WorkerLoop]))
   \<and> map update_status (filter (\<lambda>u. update_id u = ''job-2'')
        (callbacks (app_run demo_world init_app
          [AddFiles [(''/books/demo.epub'', True, ''job-1''), (''/books/broken.epub'', True, ''job-2'')],
           WorkerLoop, RemoveItem ''job-2'', WorkerLoop, CloseWindow, WorkerLoop])))
       = [CONVERTING, CONVERTING, CONVERTING, FAILED]"
proof -
  define es where "es =
    [AddFiles [(''/books/demo.epub'', True, ''job-1''), (''/books/broken.epub'', True, ''job-2'')],
     WorkerLoop, RemoveItem ''job-2'', WorkerLoop, CloseWindow, WorkerLoop]"
  have de: "distinct (concat (map event_uuids es))" by (simp add: es_def)
  have se: "map update_status (filter (\<lambda>u. update_id u = ''job-2'')
      (callbacks (app_run demo_world init_app es))) = [CONVERTING, CONVERTING, CONVERTING, FAILED]"
    unfolding es_def by code_simp
  define q where "q = [Some (job ''job-1'' ''/books/demo.epub'' ''/books/demo.pdf''),
       Some (job ''job-2'' ''/books/broken.epub'' ''/books/broken.pdf''), None]"
  have d: "distinct (map qid (queued q))"
    by (simp add: q_def job_def)
  have s: "map update_status (filter (\<lambda>u. update_id u = ''job-2'') (worker_run demo_world q))
       = [CONVERTING, CONVERTING, CONVERTING, FAILED]"
    unfolding q_def by code_simp
  have m: "(''job-2'', FAILED, 0, ''Error: File is not a zip file'')
       \<in> set (worker_process demo_world (job ''job-2'' ''/books/broken.epub'' ''/books/broken.pdf''))"
    by code_simp
  have f: "update_status (''job-2'', FAILED, 0, ''Error: File is not a zip file'') = FAILED"
    by (simp add: update_status_def)
  note t = worker_lifecycle
    [of demo_world "job ''job-2'' ''/books/broken.epub'' ''/books/broken.pdf''" q es]
  from t d have "follows PENDING
      (map update_status (filter (\<lambda>u. update_id u = ''job-2'') (worker_run demo_world q)))"
    by blast
  then have w: "follows PENDING [CONVERTING, CONVERTING, CONVERTING, FAILED]" unfolding s .
  from t m f have p: "update_progress (''job-2'', FAILED, 0, ''Error: File is not a zip file'') = 0"
    by blast
  from t de have "follows PENDING (map update_status
      (filter (\<lambda>u. update_id u = ''job-2'') (callbacks (app_run demo_world init_app es))))"
    by blast
  from d s w m p de se show ?thesis unfolding q_def es_def by blast
qed

text \<open>
  C4, evaluated on the code. One file is added and its item is removed while its status
  is still \<open>PENDING\<close> and before the worker has dequeued anything. \<open>_remove_item\<close> deletes
  the widget and the entry of \<open>queue_items\<close> only: the item is still in the task queue, and
  the next pass of the worker's loop dequeues it, reports \<open>CONVERTING\<close> for it and runs
  the pipeline on it.
\<close>

theorem removed_pending_job_is_converted:
  "map (\<lambda>kv. (fst kv, status (snd kv)))
       (queue_items (app_run demo_world init_app
          [AddFiles [(''/books/demo.epub'', True, ''job-1'')]]))
     = [(''job-1'', PENDING)]
   \<and> queue_items (app_run demo_world init_app
          [AddFiles [(''/books/demo.epub'', True, ''job-1'')], RemoveItem ''job-1'']) = []
   \<and> map (map_option qid) (task_queue (app_run demo_world init_app
          [AddFiles [(''/books/demo.epub'', True, ''job-1'')], RemoveItem ''job-1'']))
     = [Some ''job-1'']
   \<and> converted (app_run demo_world init_app
          [AddFiles [(''/books/demo.epub'', True, ''job-1'')], RemoveItem ''job-1'', WorkerLoop])
     = [(''/books/demo.epub'', ''/books/demo.pdf'')]
   \<and> map update_status (callbacks (app_run demo_world init_app
          [AddFiles [(''/books/demo.epub'', True, ''job-1'')], RemoveItem ''job-1'', WorkerLoop]))
     = [CONVERTING, CONVERTING, CONVERTING, CONVERTING, CONVERTING, CONVERTING, CONVERTING,
        CONVERTING, CONVERTING, COMPLETED]
   \<and> hd (callbacks (app_run demo_world init_app
          [AddFiles [(''/books/demo.epub'', True, ''job-1'')], RemoveItem ''job-1'', WorkerLoop]))
     = (''job-1'', CONVERTING, 0, ''Starting conversion...'')"
  by code_simp

end
